theory Spec2Isabelle
  imports Complex_Main "HOL-Library.AList" "HOL-Library.Sublist" "HOL-Library.Monad_Syntax"
begin

text \<open>
  A model of the documentation indexer: the chunker that cuts a page into overlapping
  chunks, the hybrid index with its rank fusion and its persistence, and the builder of
  the link graph. Every function of the source is a function here under its own name;
  what Python raises is a value of the type \<open>error\<close>; the libraries the source calls
  (BeautifulSoup, FAISS, the embedding model, BM25, pickle, pathlib) are parameters.
  The definitions come first, the properties after them.
\<close>

section \<open>Python strings and slices\<close>

text \<open>
  Strings are lists of characters. A \<^typ>\<open>char\<close> is one of 256 code points, so the
  model covers the texts whose code points are below 256; \<open>len\<close> is \<^const>\<open>length\<close>.
  \<open>str.split()\<close> without arguments splits at runs of whitespace and returns no empty
  word; the whitespace code points below 256 are 9 to 13, 28 to 32, 133 and 160.
\<close>

definition is_space :: "char \<Rightarrow> bool" where
  "is_space c = ((of_char c :: nat) \<in> {9, 10, 11, 12, 13, 28, 29, 30, 31, 32, 133, 160})"

text \<open>\<open>split_acc w s\<close>: the words of \<open>s\<close>, the first one prefixed by the word \<open>w\<close> read so far.\<close>

fun split_acc :: "string \<Rightarrow> string \<Rightarrow> string list" where
  "split_acc w [] = (if w = [] then [] else [w])"
| "split_acc w (c # cs) =
     (if is_space c then (if w = [] then split_acc [] cs else w # split_acc [] cs)
      else split_acc (w @ [c]) cs)"

definition split :: "string \<Rightarrow> string list" where
  "split s = split_acc [] s"

text \<open>\<open>sep.join(words)\<close>.\<close>

fun join :: "string \<Rightarrow> string list \<Rightarrow> string" where
  "join sep [] = []"
| "join sep [w] = w"
| "join sep (w # v # ws) = w @ sep @ join sep (v # ws)"

text \<open>
  \<open>str.lower()\<close>. Below code point 256 the letters with a lower-case form are A to Z
  (65 to 90) and the Latin-1 capitals 192 to 222 without the multiplication sign 215;
  each lies 32 below its lower-case form. Every other code point is left as it is.
\<close>

definition lower_char :: "char \<Rightarrow> char" where
  "lower_char c =
     (let n = (of_char c :: nat)
      in if (65 \<le> n \<and> n \<le> 90) \<or> (192 \<le> n \<and> n \<le> 222 \<and> n \<noteq> 215)
         then char_of (n + 32) else c)"

definition lower :: "string \<Rightarrow> string" where
  "lower s = map lower_char s"

text \<open>\<open>s.find(sub)\<close>: the least index at which \<open>sub\<close> starts in \<open>s\<close>, \<open>None\<close> for Python's -1.\<close>

fun find_from :: "nat \<Rightarrow> string \<Rightarrow> string \<Rightarrow> nat option" where
  "find_from i sub [] = (if sub = [] then Some i else None)"
| "find_from i sub (c # cs) =
     (if prefix sub (c # cs) then Some i else find_from (Suc i) sub cs)"

definition find_str :: "string \<Rightarrow> string \<Rightarrow> nat option" where
  "find_str s sub = find_from 0 sub s"

text \<open>
  Slices \<open>xs[:k]\<close>, \<open>xs[s:]\<close> and \<open>xs[a:b]\<close> with Python's reading of a negative bound
  (counted from the end, clamped at 0) and of a bound beyond the end (clamped).
\<close>

definition slice_bound :: "'a list \<Rightarrow> int \<Rightarrow> nat" where
  "slice_bound xs i =
     (if i < 0 then nat (max 0 (int (length xs) + i)) else min (nat i) (length xs))"

definition slice_to :: "'a list \<Rightarrow> int \<Rightarrow> 'a list" where
  "slice_to xs k = take (slice_bound xs k) xs"

definition slice_from :: "'a list \<Rightarrow> int \<Rightarrow> 'a list" where
  "slice_from xs s = drop (slice_bound xs s) xs"

definition slice :: "'a list \<Rightarrow> int \<Rightarrow> int \<Rightarrow> 'a list" where
  "slice xs a b = drop (slice_bound xs a) (take (slice_bound xs b) xs)"

section \<open>models.py\<close>

datatype SourceType =
  ARXMGD | ARXMGD_DEV | ARXDEV | ARXDOC | ARXIOP | ARXMGR | ARXREF | READARX

fun source_value :: "SourceType \<Rightarrow> string" where
  "source_value ARXMGD = ''arxmgd''"
| "source_value ARXMGD_DEV = ''arxmgd_dev''"
| "source_value ARXDEV = ''arxdev''"
| "source_value ARXDOC = ''arxdoc''"
| "source_value ARXIOP = ''arxiop''"
| "source_value ARXMGR = ''arxmgr''"
| "source_value ARXREF = ''arxref''"
| "source_value READARX = ''readarx''"

text \<open>\<open>SourceType(v)\<close>: the member whose value is \<open>v\<close>; \<open>None\<close> where Python raises.\<close>

definition source_of_value :: "string \<Rightarrow> SourceType option" where
  "source_of_value v =
     List.find (\<lambda>s. source_value s = v)
       [ARXMGD, ARXMGD_DEV, ARXDEV, ARXDOC, ARXIOP, ARXMGR, ARXREF, READARX]"

text \<open>
  JSON documents: what \<open>json.dump\<close> writes and \<open>json.load\<close> reads back. The \<open>metadata\<close>
  dictionary of a chunk holds values of this kind (the chunker stores integers, strings
  and lists of strings there).
\<close>

datatype json =
  JNull | JInt int | JStr string | JArr "json list" | JObj "(string \<times> json) list"

text \<open>
  The fields of the pydantic models carry a prefix (\<open>ck_\<close> for \<open>DocumentChunk\<close>,
  \<open>pg_\<close> for \<open>DocumentPage\<close>, \<open>sr_\<close> for \<open>SearchResult\<close>): the classes share
  field names, and \<open>id\<close> is the identity function of HOL.
\<close>

record DocumentChunk =
  ck_id :: string
  ck_source :: SourceType
  ck_page_id :: string
  ck_title :: string
  ck_path :: string
  ck_anchor :: "string option"
  ck_content :: string
  ck_html_content :: string
  ck_chunk_index :: int
  ck_total_chunks :: int
  ck_start_offset :: int
  ck_end_offset :: int
  ck_metadata :: "(string \<times> json) list"

record DocumentPage =
  pg_id :: string
  pg_source :: SourceType
  pg_title :: string
  pg_path :: string
  pg_content :: string
  pg_html_content :: string
  pg_anchors :: "string list"
  pg_see_also :: "string list"

record SearchResult =
  sr_id :: string
  sr_title :: string
  sr_path :: string
  sr_snippet :: string
  sr_score :: real
  sr_source :: SourceType
  sr_chunk_index :: "int option"

section \<open>indexer.py: the hybrid index\<close>

datatype error =
  ValueError string | RuntimeError string | FileNotFoundError string
  | KeyError string | TypeError string | ValidationError string | ZeroDivisionError

text \<open>
  The libraries the indexer calls are parameters of the model:
  \<^item> \<open>encode name texts\<close> is \<open>SentenceTransformer(name).encode(texts)\<close>, one
    vector for each text;
  \<^item> \<open>faiss_build vectors\<close> is the \<open>IndexFlatL2\<close> that \<open>_build_faiss_index\<close> fills
    with the vectors; \<open>faiss_query f vectors k\<close> is \<open>zip(scores[0], indices[0])\<close> of
    \<open>f.search(vectors, k)\<close>;
  \<^item> \<open>bm25_build\<close> is \<open>BM25Okapi\<close> and \<open>bm25_get_scores\<close> its \<open>get_scores\<close>;
  \<^item> \<open>set_iter xs ys\<close> is the order in which Python iterates over
    \<open>set(xs) | set(ys)\<close>. The language leaves that order open (it follows the hashes of
    the strings, which change from one interpreter process to the next).
  Scores are 64-bit floats in the source and real numbers here.
\<close>

record ('f, 'b, 'v) env =
  encode :: "string \<Rightarrow> string list \<Rightarrow> 'v list"
  faiss_build :: "'v list \<Rightarrow> 'f"
  faiss_query :: "'f \<Rightarrow> 'v list \<Rightarrow> int \<Rightarrow> (real \<times> int) list"
  bm25_build :: "string list list \<Rightarrow> 'b"
  bm25_get_scores :: "'b \<Rightarrow> string list \<Rightarrow> real list"
  set_iter :: "string list \<Rightarrow> string list \<Rightarrow> string list"

text \<open>
  The fields of an indexer. \<open>embedding_model_name\<close> is the constructor argument that
  selects the embedding model of the instance; \<open>_save_indices\<close> does not write it.
  \<open>chunk_metadata\<close> is a dictionary from chunk id to \<open>{'chunk': ..., 'index': ...}\<close>,
  kept as an association list in insertion order (the order Python iterates in). The
  directory of the instance follows from its source and is an argument of the
  functions that write and read it.
\<close>

record ('f, 'b) HybridIndexer =
  embedding_model_name :: string
  faiss_index :: "'f option"
  bm25_index :: "'b option"
  chunk_metadata :: "(string \<times> DocumentChunk \<times> int) list"
  anchor_map :: "(string \<times> json) list"

text \<open>The loop that finds the chunk id owning position \<open>idx\<close>, with its \<open>break\<close>.\<close>

definition chunk_id_at ::
  "(string \<times> DocumentChunk \<times> int) list \<Rightarrow> int \<Rightarrow> string option" where
  "chunk_id_at meta idx =
     map_option fst (List.find (\<lambda>(chunk_id, data). snd data = idx) meta)"

text \<open>
  \<open>_faiss_search\<close>: the body of its loop for one pair of \<open>zip(scores[0], indices[0])\<close>,
  and the loop.
\<close>

definition faiss_hit ::
  "(string \<times> DocumentChunk \<times> int) list \<Rightarrow> real \<times> int \<Rightarrow> (string \<times> real) list" where
  "faiss_hit meta r =
     (case r of (score, idx) \<Rightarrow>
        if idx < int (length meta) then
          (case chunk_id_at meta idx of
             Some chunk_id \<Rightarrow> [(chunk_id, score)] | None \<Rightarrow> [])
        else [])"

definition faiss_search ::
  "('f, 'b, 'v) env \<Rightarrow> ('f, 'b) HybridIndexer \<Rightarrow> 'f \<Rightarrow> string \<Rightarrow> int
     \<Rightarrow> (string \<times> real) list" where
  "faiss_search ev ix f query k =
     (let query_embedding = encode ev (embedding_model_name ix) [query]
      in concat (map (faiss_hit (chunk_metadata ix)) (faiss_query ev f query_embedding k)))"

definition bm25_search ::
  "('f, 'b, 'v) env \<Rightarrow> ('f, 'b) HybridIndexer \<Rightarrow> 'b \<Rightarrow> string \<Rightarrow> int
     \<Rightarrow> (string \<times> real) list" where
  "bm25_search ev ix b query k =
     (let query_tokens = split (lower query);
          scores = bm25_get_scores ev b query_tokens;
          top_indices = slice_to (sort_key (\<lambda>i. - (scores ! i)) [0..<length scores]) k
      in concat (map (\<lambda>idx.
           case chunk_id_at (chunk_metadata ix) (int idx) of
             Some chunk_id \<Rightarrow> [(chunk_id, scores ! idx)] | None \<Rightarrow> [])
         top_indices))"

text \<open>
  \<open>{chunk_id: rank for rank, (chunk_id, _) in enumerate(scores)}\<close>: a later entry
  with the same chunk id overwrites an earlier one.
\<close>

definition ranks :: "(string \<times> real) list \<Rightarrow> (string \<rightharpoonup> int)" where
  "ranks scores =
     fold (\<lambda>(rank, (chunk_id, _)) m. m(chunk_id \<mapsto> int rank)) (enumerate 0 scores) Map.empty"

text \<open>\<open>d.get(key, default)\<close>.\<close>

definition get_default :: "('k \<rightharpoonup> 'v) \<Rightarrow> 'k \<Rightarrow> 'v \<Rightarrow> 'v" where
  "get_default d key dflt = (case d key of Some v \<Rightarrow> v | None \<Rightarrow> dflt)"

definition rrf_score :: "int \<Rightarrow> int \<Rightarrow> int \<Rightarrow> real" where
  "rrf_score k faiss_rank bm25_rank =
     1 / real_of_int (k + faiss_rank + 1) + 1 / real_of_int (k + bm25_rank + 1)"

text \<open>
  \<open>_reciprocal_rank_fusion\<close>. The division raises \<open>ZeroDivisionError\<close> when a
  denominator is 0, which needs a negative \<open>k\<close>; \<open>search\<close> passes the default 60.
  \<open>sorted(..., key=lambda x: x[1], reverse=True)\<close> is stable: entries with equal
  scores keep their order, as \<^const>\<open>sort_key\<close> on the negated score does.
\<close>

definition reciprocal_rank_fusion ::
  "('f, 'b, 'v) env \<Rightarrow> (string \<times> real) list \<Rightarrow> (string \<times> real) list \<Rightarrow> int
     \<Rightarrow> error + (string \<times> real) list" where
  "reciprocal_rank_fusion ev faiss_scores bm25_scores k =
     (let faiss_ranks = ranks faiss_scores;
          bm25_ranks = ranks bm25_scores;
          all_chunk_ids = set_iter ev (map fst faiss_scores) (map fst bm25_scores)
      in if \<exists>chunk_id \<in> set all_chunk_ids.
              k + get_default faiss_ranks chunk_id k + 1 = 0
              \<or> k + get_default bm25_ranks chunk_id k + 1 = 0
         then Inl ZeroDivisionError
         else
           let rrf_scores = map (\<lambda>chunk_id.
                 (chunk_id, rrf_score k (get_default faiss_ranks chunk_id k)
                                        (get_default bm25_ranks chunk_id k))) all_chunk_ids
           in Inr (sort_key (\<lambda>x. - snd x) rrf_scores))"

definition create_snippet :: "string \<Rightarrow> string \<Rightarrow> int \<Rightarrow> string" where
  "create_snippet content query max_length =
     (let query_lower = lower query;
          content_lower = lower content
      in case find_str content_lower query_lower of
           None \<Rightarrow>
             (if int (length content) > max_length
              then slice_to content max_length @ ''...'' else content)
         | Some query_pos \<Rightarrow>
             (let start = max 0 (int query_pos - max_length div 2);
                  end_pos = min (int (length content))
                              (int query_pos + int (length query) + max_length div 2);
                  snippet = slice content start end_pos;
                  snippet1 = (if start > 0 then ''...'' @ snippet else snippet)
              in if end_pos < int (length content) then snippet1 @ ''...'' else snippet1))"

definition search ::
  "('f, 'b, 'v) env \<Rightarrow> ('f, 'b) HybridIndexer \<Rightarrow> string \<Rightarrow> int
     \<Rightarrow> error + SearchResult list" where
  "search ev ix query k =
     (case (faiss_index ix, bm25_index ix) of
        (Some f, Some b) \<Rightarrow>
          (let faiss_scores = faiss_search ev ix f query (k * 2);
               bm25_scores = bm25_search ev ix b query (k * 2)
           in case reciprocal_rank_fusion ev faiss_scores bm25_scores 60 of
                Inl e \<Rightarrow> Inl e
              | Inr combined_scores \<Rightarrow>
                  (let top_results = slice_to combined_scores k
                   in Inr (concat (map (\<lambda>(chunk_id, score).
                        case map_of (chunk_metadata ix) chunk_id of
                          None \<Rightarrow> []
                        | Some (chunk, _) \<Rightarrow>
                            [\<lparr>sr_id = ck_id chunk, sr_title = ck_title chunk,
                              sr_path = ck_path chunk,
                              sr_snippet = create_snippet (ck_content chunk) query 200,
                              sr_score = score, sr_source = ck_source chunk,
                              sr_chunk_index = Some (ck_chunk_index chunk)\<rparr>])
                      top_results))))
      | _ \<Rightarrow> Inl (RuntimeError ''Indices not loaded''))"

text \<open>
  \<open>__init__\<close>: the embedding model is chosen, nothing is built, nothing is loaded.
  The model named by default is \<open>all-MiniLM-L6-v2\<close>.
\<close>

definition new_indexer :: "string \<Rightarrow> ('f, 'b) HybridIndexer" where
  "new_indexer embedding_model =
     \<lparr>embedding_model_name = embedding_model, faiss_index = None, bm25_index = None,
      chunk_metadata = [], anchor_map = []\<rparr>"

definition default_model :: string where
  "default_model = ''all-MiniLM-L6-v2''"

subsection \<open>The fusion formula as the specification words it\<close>

text \<open>
  The 0-based position of a chunk id in a candidate list, and the rank the
  specification gives a chunk: its position, or 60 when the list does not hold it.
\<close>

fun index_of :: "'a \<Rightarrow> 'a list \<Rightarrow> nat option" where
  "index_of c [] = None"
| "index_of c (x # xs) = (if x = c then Some 0 else map_option Suc (index_of c xs))"

definition rank_in :: "string \<Rightarrow> (string \<times> real) list \<Rightarrow> int" where
  "rank_in c scores = (case index_of c (map fst scores) of Some i \<Rightarrow> int i | None \<Rightarrow> 60)"

subsection \<open>A small concrete environment\<close>

text \<open>
  Stand-ins for the libraries, used to run the model on concrete inputs: the vector of
  a text is the product of its length and the length of the model's name; the dense
  index is the list of vectors and a query returns the \<open>k\<close> positions nearest to
  the query vector with their distances; the lexical score of a document is the number
  of its tokens that occur in the query; a set is iterated in the order that
  \<open>remdups\<close> leaves.
\<close>

definition absdiff :: "nat \<Rightarrow> nat \<Rightarrow> nat" where
  "absdiff a b = (a - b) + (b - a)"

definition demo_env :: "(nat list, string list list, nat) env" where
  "demo_env =
     \<lparr>encode = (\<lambda>name texts. map (\<lambda>t. length t * length name) texts),
      faiss_build = (\<lambda>vectors. vectors),
      faiss_query = (\<lambda>f q k. case q of
                        [] \<Rightarrow> []
                      | v # _ \<Rightarrow>
                          map (\<lambda>i. (real (absdiff (f ! i) v), int i))
                            (take (nat k) (sort_key (\<lambda>i. absdiff (f ! i) v) [0..<length f]))),
      bm25_build = (\<lambda>tokenized. tokenized),
      bm25_get_scores = (\<lambda>b q. map (\<lambda>doc. real (length (filter (\<lambda>t. t \<in> set q) doc))) b),
      set_iter = (\<lambda>xs ys. remdups (xs @ ys))\<rparr>"

section \<open>toc_parser.py and link_graph.py: the link graph\<close>

datatype TOCTreeNode =
  TOCTreeNode (toc_title: string) (toc_path: string) (toc_children: "TOCTreeNode list")

text \<open>
  A graph entry \<open>{'parent': ..., 'children': [...], 'see_also': [...]}\<close>, and the two
  dictionaries of the builder. \<open>build_graph\<close> gives every page an entry with lists of
  its own, so the built graph is modelled by its values.
\<close>

record edges =
  parent :: "string option"
  children :: "string list"
  see_also :: "string list"

type_synonym link_graph = "string \<rightharpoonup> edges"

text \<open>The first loop of \<open>build_graph\<close>: the path index and the empty entries.\<close>

definition index_pages :: "DocumentPage list \<Rightarrow> (string \<rightharpoonup> string) \<times> link_graph" where
  "index_pages pages =
     fold (\<lambda>page (path_to_id, graph).
            (path_to_id(pg_path page \<mapsto> pg_id page),
             graph(pg_id page \<mapsto> \<lparr>parent = None, children = [], see_also = []\<rparr>)))
       pages (Map.empty, Map.empty)"

text \<open>
  Lines 64 to 68 of \<open>_process_toc_node\<close>. \<open>self.graph[parent_id]\<close> raises
  \<open>KeyError\<close> when the parent has no entry; the assignment of \<open>parent\<close> has
  happened by then, and the error ends the build.
\<close>

definition link_parent :: "link_graph \<Rightarrow> string option \<Rightarrow> string \<Rightarrow> error + link_graph" where
  "link_parent graph parent_id page_id =
     (case parent_id of
        None \<Rightarrow> Inr graph
      | Some p \<Rightarrow>
          (if p = [] then Inr graph
           else case graph page_id of
             None \<Rightarrow> Inr graph
           | Some entry \<Rightarrow>
               (let graph1 = graph(page_id \<mapsto> entry\<lparr>parent := Some p\<rparr>)
                in case graph1 p of
                     None \<Rightarrow> Inl (KeyError p)
                   | Some pentry \<Rightarrow>
                       if page_id \<in> set (children pentry) then Inr graph1
                       else Inr (graph1(p \<mapsto> pentry\<lparr>children := children pentry @ [page_id]\<rparr>)))))"

text \<open>
  \<open>_process_toc_node\<close>, and the loop over a list of nodes (the children of a node, or
  the roots in \<open>_add_toc_relationships\<close>). A node whose path is empty, is not a page
  path, or maps to an empty id hands its own parent down to its children.
\<close>

fun process_toc_node ::
    "(string \<rightharpoonup> string) \<Rightarrow> TOCTreeNode \<Rightarrow> string option \<Rightarrow> link_graph \<Rightarrow> error + link_graph"
  and process_toc_nodes ::
    "(string \<rightharpoonup> string) \<Rightarrow> TOCTreeNode list \<Rightarrow> string option \<Rightarrow> link_graph \<Rightarrow> error + link_graph"
  where
  "process_toc_node path_to_id (TOCTreeNode title path chs) parent_id graph =
     (if path = [] then process_toc_nodes path_to_id chs parent_id graph
      else case path_to_id path of
        None \<Rightarrow> process_toc_nodes path_to_id chs parent_id graph
      | Some page_id \<Rightarrow>
          if page_id = [] then process_toc_nodes path_to_id chs parent_id graph
          else (case link_parent graph parent_id page_id of
                  Inl e \<Rightarrow> Inl e
                | Inr graph1 \<Rightarrow> process_toc_nodes path_to_id chs (Some page_id) graph1))"
| "process_toc_nodes path_to_id [] parent_id graph = Inr graph"
| "process_toc_nodes path_to_id (node # nodes) parent_id graph =
     (case process_toc_node path_to_id node parent_id graph of
        Inl e \<Rightarrow> Inl e
      | Inr graph1 \<Rightarrow> process_toc_nodes path_to_id nodes parent_id graph1)"

text \<open>
  \<open>_resolve_link_path\<close>. \<open>join_parent current_path link_path\<close> stands for
  \<open>str(Path(current_path).parent / link_path)\<close>, whose result depends on the
  platform's path flavour; it is a parameter of the model.
\<close>

fun try_extensions ::
  "(string \<Rightarrow> string \<Rightarrow> string) \<Rightarrow> (string \<rightharpoonup> string) \<Rightarrow> string \<Rightarrow> string \<Rightarrow> string list
     \<Rightarrow> string option" where
  "try_extensions join_parent path_to_id link_path current_path [] = None"
| "try_extensions join_parent path_to_id link_path current_path (ext # exts) =
     (if \<not> suffix ext link_path then
        (let test_path = link_path @ ext
         in case path_to_id test_path of
              Some i \<Rightarrow> Some i
            | None \<Rightarrow>
                (case path_to_id (join_parent current_path test_path) of
                   Some i \<Rightarrow> Some i
                 | None \<Rightarrow> try_extensions join_parent path_to_id link_path current_path exts))
      else try_extensions join_parent path_to_id link_path current_path exts)"

definition resolve_link_path ::
  "(string \<Rightarrow> string \<Rightarrow> string) \<Rightarrow> (string \<rightharpoonup> string) \<Rightarrow> string \<Rightarrow> string
     \<Rightarrow> string option" where
  "resolve_link_path join_parent path_to_id link_path current_path =
     (case path_to_id link_path of
        Some i \<Rightarrow> Some i
      | None \<Rightarrow>
          (case path_to_id (join_parent current_path link_path) of
             Some i \<Rightarrow> Some i
           | None \<Rightarrow>
               try_extensions join_parent path_to_id link_path current_path
                 [''.html'', ''.htm'']))"

text \<open>
  The inner loop of \<open>_add_see_also_relationships\<close> for one link of one page, and the
  two loops. The page's entry exists whenever the inner loop runs (the outer loop
  skips a page without one, and no entry is ever removed).
\<close>

definition add_see_also_link ::
  "(string \<Rightarrow> string \<Rightarrow> string) \<Rightarrow> (string \<rightharpoonup> string) \<Rightarrow> DocumentPage \<Rightarrow> string
     \<Rightarrow> link_graph \<Rightarrow> link_graph" where
  "add_see_also_link join_parent path_to_id page link_path graph =
     (case resolve_link_path join_parent path_to_id link_path (pg_path page) of
        None \<Rightarrow> graph
      | Some target_id \<Rightarrow>
          if target_id \<noteq> [] \<and> target_id \<noteq> pg_id page then
            (case graph (pg_id page) of
               None \<Rightarrow> graph
             | Some entry \<Rightarrow>
                 if target_id \<in> set (see_also entry) then graph
                 else graph(pg_id page \<mapsto> entry\<lparr>see_also := see_also entry @ [target_id]\<rparr>))
          else graph)"

definition add_see_also_relationships ::
  "(string \<Rightarrow> string \<Rightarrow> string) \<Rightarrow> (string \<rightharpoonup> string) \<Rightarrow> DocumentPage list
     \<Rightarrow> link_graph \<Rightarrow> link_graph" where
  "add_see_also_relationships join_parent path_to_id pages graph =
     fold (\<lambda>page g.
            if pg_id page \<notin> dom g then g
            else fold (add_see_also_link join_parent path_to_id page) (pg_see_also page) g)
       pages graph"

definition build_graph ::
  "(string \<Rightarrow> string \<Rightarrow> string) \<Rightarrow> TOCTreeNode list \<Rightarrow> DocumentPage list
     \<Rightarrow> error + link_graph" where
  "build_graph join_parent toc_nodes pages =
     (let (path_to_id, graph) = index_pages pages
      in case process_toc_nodes path_to_id toc_nodes None graph of
           Inl e \<Rightarrow> Inl e
         | Inr graph1 \<Rightarrow> Inr (add_see_also_relationships join_parent path_to_id pages graph1))"

text \<open>
  \<open>str(Path(current_path).parent / link_path)\<close> on a POSIX system: a path is an
  optional root and the components between slashes, without the empty ones and the
  dots; an absolute right operand replaces the left one; the empty path prints as a dot.
\<close>

fun split_on :: "char \<Rightarrow> string \<Rightarrow> string list" where
  "split_on c [] = [[]]"
| "split_on c (x # xs) =
     (if x = c then [] # split_on c xs
      else case split_on c xs of w # ws \<Rightarrow> (x # w) # ws | [] \<Rightarrow> [[x]])"

definition posix_root :: "string \<Rightarrow> string" where
  "posix_root s =
     (if take 2 s = ''//'' \<and> take 3 s \<noteq> ''///'' then ''//''
      else if take 1 s = ''/'' then ''/'' else [])"

definition posix_parts :: "string \<Rightarrow> string list" where
  "posix_parts s = filter (\<lambda>p. p \<noteq> [] \<and> p \<noteq> ''.'') (split_on CHR ''/'' s)"

definition posix_str :: "string \<Rightarrow> string list \<Rightarrow> string" where
  "posix_str anchor parts =
     (if anchor = [] \<and> parts = [] then ''.'' else anchor @ join ''/'' parts)"

definition posix_join_parent :: "string \<Rightarrow> string \<Rightarrow> string" where
  "posix_join_parent current_path link_path =
     (if posix_root link_path \<noteq> [] then posix_str (posix_root link_path) (posix_parts link_path)
      else posix_str (posix_root current_path)
             (butlast (posix_parts current_path) @ posix_parts link_path))"

subsection \<open>The trace of the table of contents\<close>

text \<open>
  The page id a TOC node resolves to, the parent/child node pairs of a TOC tree, and
  the (parent id, page id) pairs for which \<open>_process_toc_node\<close> reaches line 65 with a
  parent, in the order of the walk.
\<close>

definition node_id :: "(string \<rightharpoonup> string) \<Rightarrow> TOCTreeNode \<Rightarrow> string option" where
  "node_id path_to_id node =
     (if toc_path node = [] then None
      else case path_to_id (toc_path node) of
        None \<Rightarrow> None
      | Some page_id \<Rightarrow> if page_id = [] then None else Some page_id)"

fun toc_pairs :: "TOCTreeNode \<Rightarrow> (TOCTreeNode \<times> TOCTreeNode) list" where
  "toc_pairs (TOCTreeNode title path chs) =
     map (\<lambda>c. (TOCTreeNode title path chs, c)) chs @ concat (map toc_pairs chs)"

fun toc_links :: "(string \<rightharpoonup> string) \<Rightarrow> TOCTreeNode \<Rightarrow> string option \<Rightarrow> (string \<times> string) list"
  and toc_links_list ::
    "(string \<rightharpoonup> string) \<Rightarrow> TOCTreeNode list \<Rightarrow> string option \<Rightarrow> (string \<times> string) list"
  where
  "toc_links path_to_id (TOCTreeNode title path chs) parent_id =
     (case node_id path_to_id (TOCTreeNode title path chs) of
        None \<Rightarrow> toc_links_list path_to_id chs parent_id
      | Some page_id \<Rightarrow>
          (case parent_id of
             None \<Rightarrow> []
           | Some p \<Rightarrow> if p = [] then [] else [(p, page_id)])
          @ toc_links_list path_to_id chs (Some page_id))"
| "toc_links_list path_to_id [] parent_id = []"
| "toc_links_list path_to_id (node # nodes) parent_id =
     toc_links path_to_id node parent_id @ toc_links_list path_to_id nodes parent_id"

text \<open>
  What line 65 to 68 do to the graph for one (parent id, page id) pair whose ids both
  have an entry, as a total function on graphs.
\<close>

definition apply_link :: "string \<times> string \<Rightarrow> link_graph \<Rightarrow> link_graph" where
  "apply_link l graph =
     (case graph (snd l) of
        None \<Rightarrow> graph
      | Some entry \<Rightarrow>
          (let graph1 = graph(snd l \<mapsto> entry\<lparr>parent := Some (fst l)\<rparr>)
           in case graph1 (fst l) of
                None \<Rightarrow> graph1
              | Some pentry \<Rightarrow>
                  if snd l \<in> set (children pentry) then graph1
                  else graph1(fst l \<mapsto> pentry\<lparr>children := children pentry @ [snd l]\<rparr>)))"

text \<open>The entry of a page id in the result of a build; \<open>None\<close> when the build raised.\<close>

definition graph_entry :: "error + link_graph \<Rightarrow> string \<Rightarrow> edges option" where
  "graph_entry r page_id = (case r of Inl e \<Rightarrow> None | Inr graph \<Rightarrow> graph page_id)"

text \<open>A page with the given id, path and outbound references, for concrete inputs.\<close>

definition mk_page :: "string \<Rightarrow> string \<Rightarrow> string list \<Rightarrow> DocumentPage" where
  "mk_page i p refs =
     \<lparr>pg_id = i, pg_source = ARXMGD, pg_title = [], pg_path = p, pg_content = [],
      pg_html_content = [], pg_anchors = [], pg_see_also = refs\<rparr>"

subsection \<open>Invariants of the build\<close>

text \<open>
  Every id the path index gives has a graph entry; no entry has a see-also edge yet;
  no entry lists its own id among its see-also edges.
\<close>

definition ids_have_entries :: "(string \<rightharpoonup> string) \<Rightarrow> link_graph \<Rightarrow> bool" where
  "ids_have_entries m g = (\<forall>k v. m k = Some v \<longrightarrow> v \<in> dom g)"

definition fresh_entries :: "link_graph \<Rightarrow> bool" where
  "fresh_entries g = (\<forall>q e. g q = Some e \<longrightarrow> see_also e = [])"

definition no_self_loop :: "link_graph \<Rightarrow> bool" where
  "no_self_loop g = (\<forall>q e. g q = Some e \<longrightarrow> q \<notin> set (see_also e))"

subsection \<open>Concrete pages and tables of contents\<close>

text \<open>
  Three pages; page A refers to itself, page C refers to \<open>A.html\<close> in the wrong case.
  In the first table of contents page C is listed under A and under B; in the second it
  is listed under A only, and B hangs below a node without a path.
\<close>

definition pages_abc :: "DocumentPage list" where
  "pages_abc = [mk_page ''A'' ''a.html'' [''b.html'', ''a.html'', ''c''],
                mk_page ''B'' ''b.html'' [], mk_page ''C'' ''c.htm'' [''Arc'', ''A.html'']]"

definition toc_two_parents :: "TOCTreeNode list" where
  "toc_two_parents =
     [TOCTreeNode ''Alpha'' ''a.html'' [TOCTreeNode ''Gamma'' ''c.htm'' []],
      TOCTreeNode ''Beta'' ''b.html'' [TOCTreeNode ''Gamma'' ''c.htm'' []]]"

definition toc_nested :: "TOCTreeNode list" where
  "toc_nested =
     [TOCTreeNode ''Alpha'' ''a.html''
        [TOCTreeNode ''Gamma'' ''c.htm'' [],
         TOCTreeNode ''Folder'' [] [TOCTreeNode ''Beta'' ''b.html'' []]]]"

subsection \<open>The graph as objects: \<open>get_neighbors\<close>\<close>

text \<open>
  \<open>get_neighbors\<close> returns \<open>self.graph[page_id].copy()\<close>, and what a caller can do to
  the result depends on which objects the copy shares with the stored entry. Here the
  graph is a store of objects: an entry is a dictionary object whose \<open>'children'\<close> and
  \<open>'see_also'\<close> values are references to list objects; \<open>h_graph\<close> is \<open>self.graph\<close>.
\<close>

type_synonym ref = nat

record entry_obj =
  o_parent :: "string option"
  o_children :: ref
  o_see_also :: ref

record heap =
  h_lists :: "ref \<rightharpoonup> string list"
  h_dicts :: "ref \<rightharpoonup> entry_obj"
  h_graph :: "string \<rightharpoonup> ref"
  h_next :: ref

definition empty_heap :: heap where
  "empty_heap = \<lparr>h_lists = Map.empty, h_dicts = Map.empty, h_graph = Map.empty, h_next = 0\<rparr>"

text \<open>
  The objects \<open>build_graph\<close> leaves behind for one page: an entry with two lists of its
  own (line 29 makes them afresh for every page), holding the values of the built graph.
\<close>

definition alloc_entry :: "string \<Rightarrow> edges \<Rightarrow> heap \<Rightarrow> heap" where
  "alloc_entry page_id e h =
     (let n = h_next h
      in h\<lparr>h_lists := (h_lists h)(n \<mapsto> children e, n + 1 \<mapsto> see_also e),
            h_dicts := (h_dicts h)(n + 2 \<mapsto>
                         \<lparr>o_parent = parent e, o_children = n, o_see_also = n + 1\<rparr>),
            h_graph := (h_graph h)(page_id \<mapsto> n + 2),
            h_next := n + 3\<rparr>)"

definition heap_of :: "(string \<Rightarrow> edges option) \<Rightarrow> string list \<Rightarrow> heap" where
  "heap_of g ids =
     fold (\<lambda>i h. case g i of None \<Rightarrow> h | Some e \<Rightarrow> alloc_entry i e h) ids empty_heap"

text \<open>The values of the stored entry of a page id, read through the references.\<close>

definition stored :: "heap \<Rightarrow> string \<Rightarrow> edges option" where
  "stored h page_id =
     (case h_graph h page_id of
        None \<Rightarrow> None
      | Some d \<Rightarrow>
          (case h_dicts h d of
             None \<Rightarrow> None
           | Some obj \<Rightarrow>
               Some \<lparr>parent = o_parent obj,
                     children = (case h_lists h (o_children obj) of Some xs \<Rightarrow> xs | None \<Rightarrow> []),
                     see_also = (case h_lists h (o_see_also obj) of Some xs \<Rightarrow> xs | None \<Rightarrow> [])\<rparr>))"

text \<open>
  \<open>get_neighbors\<close>: for an unknown id a new dictionary with two new empty lists; for a
  known id \<open>dict.copy()\<close>, a new dictionary object with the same three values, so with
  the same two list references. The result is the reference to the returned dictionary.
\<close>

definition get_neighbors :: "heap \<Rightarrow> string \<Rightarrow> ref \<times> heap" where
  "get_neighbors h page_id =
     (let n = h_next h
      in case (case h_graph h page_id of None \<Rightarrow> None | Some d \<Rightarrow> h_dicts h d) of
           None \<Rightarrow>
             (n + 2,
              h\<lparr>h_lists := (h_lists h)(n \<mapsto> [], n + 1 \<mapsto> []),
                h_dicts := (h_dicts h)(n + 2 \<mapsto>
                             \<lparr>o_parent = None, o_children = n, o_see_also = n + 1\<rparr>),
                h_next := n + 3\<rparr>)
         | Some obj \<Rightarrow> (n, h\<lparr>h_dicts := (h_dicts h)(n \<mapsto> obj), h_next := n + 1\<rparr>))"

text \<open>
  What a caller can do with the returned record \<open>r\<close>: \<open>r['children'].append(x)\<close>,
  \<open>r['see_also'].clear()\<close> and the assignment \<open>r['parent'] = v\<close>.
\<close>

definition children_append :: "ref \<times> heap \<Rightarrow> string \<Rightarrow> heap" where
  "children_append rh x =
     (case h_dicts (snd rh) (fst rh) of
        None \<Rightarrow> snd rh
      | Some obj \<Rightarrow>
          (case h_lists (snd rh) (o_children obj) of
             None \<Rightarrow> snd rh
           | Some xs \<Rightarrow> (snd rh)\<lparr>h_lists := (h_lists (snd rh))(o_children obj \<mapsto> xs @ [x])\<rparr>))"

definition see_also_clear :: "ref \<times> heap \<Rightarrow> heap" where
  "see_also_clear rh =
     (case h_dicts (snd rh) (fst rh) of
        None \<Rightarrow> snd rh
      | Some obj \<Rightarrow> (snd rh)\<lparr>h_lists := (h_lists (snd rh))(o_see_also obj \<mapsto> [])\<rparr>)"

definition parent_assign :: "ref \<times> heap \<Rightarrow> string option \<Rightarrow> heap" where
  "parent_assign rh v =
     (case h_dicts (snd rh) (fst rh) of
        None \<Rightarrow> snd rh
      | Some obj \<Rightarrow> (snd rh)\<lparr>h_dicts := (h_dicts (snd rh))(fst rh \<mapsto> obj\<lparr>o_parent := v\<rparr>)\<rparr>)"

text \<open>The objects of the graph built from \<open>toc_nested\<close> and \<open>pages_abc\<close>.\<close>

definition built_heap :: heap where
  "built_heap =
     heap_of (graph_entry (build_graph posix_join_parent toc_nested pages_abc))
       [''A'', ''B'', ''C'']"

section \<open>chunker.py: the heading-aware chunker\<close>

text \<open>
  The chunker object: its three sizes and the anchor map that \<open>_create_chunk\<close> fills.
  The sizes are Python integers; nothing in the class restricts them.
\<close>

record HeadingAwareChunker =
  target_tokens :: int
  overlap_tokens :: int
  min_chunk_tokens :: int
  chunker_anchor_map :: "(string \<times> json) list"

text \<open>
  One element of \<open>heading_sections\<close> (its \<open>'text'\<close> and \<open>'html'\<close>; the loop reads no
  other key), or one paragraph of \<open>_chunk_by_paragraphs\<close> with its stripped text and its
  markup. BeautifulSoup produces both lists; they are inputs of the model, as is
  \<open>extract_anchors\<close>, the dictionary that \<open>_extract_chunk_anchors\<close> reads off a piece
  of markup.
\<close>

record Section =
  sec_text :: string
  sec_html :: string

definition estimate_tokens :: "string \<Rightarrow> int" where
  "estimate_tokens text = int (length text) div 4"

text \<open>
  \<open>_get_overlap_text\<close>. In \<open>words[-self.overlap_tokens//4:]\<close> the unary minus binds
  tighter than the floor division: the slice starts at \<open>(-overlap_tokens) // 4\<close>.
\<close>

definition get_overlap_text :: "HeadingAwareChunker \<Rightarrow> string \<Rightarrow> string" where
  "get_overlap_text chunker text =
     (let words = split text;
          overlap_words =
            (if int (length words) > overlap_tokens chunker div 4
             then slice_from words ((- overlap_tokens chunker) div 4) else [])
      in join '' '' overlap_words)"

text \<open>\<open>str(n)\<close> for an integer, as the f-string of the chunk id formats it.\<close>

function str_nat :: "nat \<Rightarrow> string" where
  "str_nat n =
     (if n < 10 then [''0123456789'' ! n]
      else str_nat (n div 10) @ [''0123456789'' ! (n mod 10)])"
  by pat_completeness auto
termination
  by (relation "measure (\<lambda>n. n)") auto

definition str_int :: "int \<Rightarrow> string" where
  "str_int i = (if i < 0 then ''-'' @ str_nat (nat (- i)) else str_nat (nat i))"

text \<open>
  \<open>_create_chunk\<close>: the chunk and the anchor map after the loop over the chunk's
  anchors. Assigning to a key that the map already has keeps the key's place.
\<close>

definition create_chunk ::
  "(string \<Rightarrow> (string \<times> int) list) \<Rightarrow> (string \<times> json) list \<Rightarrow> DocumentPage \<Rightarrow> int
     \<Rightarrow> string \<Rightarrow> string \<Rightarrow> int \<Rightarrow> int \<Rightarrow> DocumentChunk \<times> (string \<times> json) list" where
  "create_chunk extract_anchors amap page chunk_index text html start_offset end_offset =
     (let chunk_id = pg_id page @ ''_chunk_'' @ str_int chunk_index;
          chunk_anchors = extract_anchors html;
          amap1 = fold (\<lambda>(anchor, offset) m.
                     AList.update (pg_id page @ ''#'' @ anchor)
                       (JObj [(''chunk_id'', JStr chunk_id), (''offset'', JInt offset),
                              (''start_offset'', JInt start_offset),
                              (''end_offset'', JInt end_offset)]) m)
                   chunk_anchors amap
      in (\<lparr>ck_id = chunk_id, ck_source = pg_source page, ck_page_id = pg_id page,
            ck_title = pg_title page, ck_path = pg_path page, ck_anchor = None,
            ck_content = text, ck_html_content = html, ck_chunk_index = chunk_index,
            ck_total_chunks = 0, ck_start_offset = start_offset, ck_end_offset = end_offset,
            ck_metadata =
              [(''original_page_title'', JStr (pg_title page)),
               (''original_page_path'', JStr (pg_path page)),
               (''word_count'', JInt (int (length (split text)))),
               (''char_count'', JInt (int (length text))),
               (''anchors'', JArr (map (\<lambda>a. JStr (fst a)) chunk_anchors))]\<rparr>,
          amap1))"

text \<open>The local variables of the loop in \<open>chunk_page\<close>, with the anchor map.\<close>

record chunk_state =
  chunks :: "DocumentChunk list"
  current_chunk_text :: string
  current_chunk_html :: string
  current_offset :: int
  chunk_index :: int
  amap :: "(string \<times> json) list"

definition initial_state :: "(string \<times> json) list \<Rightarrow> chunk_state" where
  "initial_state m =
     \<lparr>chunks = [], current_chunk_text = [], current_chunk_html = [], current_offset = 0,
      chunk_index = 0, amap = m\<rparr>"

text \<open>
  \<open>emit_chunk\<close>: the four lines that create a chunk from the buffer and append it
  (lines 45 to 50 in the loop; lines 68 to 72 after it, where the index is not read
  again).
\<close>

definition emit_chunk ::
  "(string \<Rightarrow> (string \<times> int) list) \<Rightarrow> DocumentPage \<Rightarrow> chunk_state \<Rightarrow> chunk_state" where
  "emit_chunk extract_anchors page st =
     (let (chunk, m) = create_chunk extract_anchors (amap st) page (chunk_index st)
                         (current_chunk_text st) (current_chunk_html st) (current_offset st)
                         (current_offset st + int (length (current_chunk_text st)))
      in st\<lparr>chunks := chunks st @ [chunk], chunk_index := chunk_index st + 1, amap := m\<rparr>)"

text \<open>One round of the loop over the sections (lines 35 to 64).\<close>

definition chunk_step ::
  "HeadingAwareChunker \<Rightarrow> (string \<Rightarrow> (string \<times> int) list) \<Rightarrow> DocumentPage
     \<Rightarrow> chunk_state \<Rightarrow> Section \<Rightarrow> chunk_state" where
  "chunk_step chunker extract_anchors page st section =
     (let section_text = sec_text section;
          section_html = sec_html section
      in if current_chunk_text st \<noteq> []
            \<and> estimate_tokens (current_chunk_text st @ '' '' @ section_text)
                > target_tokens chunker
         then
           (let st1 = (if estimate_tokens (current_chunk_text st) \<ge> min_chunk_tokens chunker
                       then emit_chunk extract_anchors page st else st);
                overlap_text = get_overlap_text chunker (current_chunk_text st);
                new_text = (if overlap_text \<noteq> [] then overlap_text @ '' '' @ section_text
                            else section_text)
            in st1\<lparr>current_chunk_text := new_text,
                    current_chunk_html := section_html,
                    current_offset := current_offset st + int (length new_text)
                                       - int (length overlap_text) - int (length section_text)\<rparr>)
         else if current_chunk_text st \<noteq> []
         then st\<lparr>current_chunk_text := current_chunk_text st @ '' '' @ section_text,
                 current_chunk_html := current_chunk_html st @ section_html\<rparr>
         else st\<lparr>current_chunk_text := section_text, current_chunk_html := section_html\<rparr>)"

text \<open>The final chunk (lines 66 to 72).\<close>

definition finish ::
  "HeadingAwareChunker \<Rightarrow> (string \<Rightarrow> (string \<times> int) list) \<Rightarrow> DocumentPage
     \<Rightarrow> chunk_state \<Rightarrow> chunk_state" where
  "finish chunker extract_anchors page st =
     (if current_chunk_text st \<noteq> []
         \<and> estimate_tokens (current_chunk_text st) \<ge> min_chunk_tokens chunker
      then emit_chunk extract_anchors page st else st)"

definition chunk_sections ::
  "HeadingAwareChunker \<Rightarrow> (string \<Rightarrow> (string \<times> int) list) \<Rightarrow> DocumentPage \<Rightarrow> Section list
     \<Rightarrow> DocumentChunk list \<times> HeadingAwareChunker" where
  "chunk_sections chunker extract_anchors page sections =
     (let st = finish chunker extract_anchors page
                 (fold (\<lambda>section st. chunk_step chunker extract_anchors page st section)
                    sections (initial_state (chunker_anchor_map chunker)))
      in (chunks st, chunker\<lparr>chunker_anchor_map := amap st\<rparr>))"

text \<open>
  \<open>_chunk_by_paragraphs\<close> runs the same loop over the paragraphs whose stripped text
  is not empty; \<open>chunk_page\<close> takes it when there is no heading section. Both return
  the chunks and leave the anchor map in the chunker.
\<close>

definition chunk_by_paragraphs ::
  "HeadingAwareChunker \<Rightarrow> (string \<Rightarrow> (string \<times> int) list) \<Rightarrow> DocumentPage \<Rightarrow> Section list
     \<Rightarrow> DocumentChunk list \<times> HeadingAwareChunker" where
  "chunk_by_paragraphs chunker extract_anchors page paragraphs =
     chunk_sections chunker extract_anchors page
       (filter (\<lambda>para. sec_text para \<noteq> []) paragraphs)"

definition chunk_page ::
  "HeadingAwareChunker \<Rightarrow> (string \<Rightarrow> (string \<times> int) list) \<Rightarrow> DocumentPage \<Rightarrow> Section list
     \<Rightarrow> Section list \<Rightarrow> DocumentChunk list \<times> HeadingAwareChunker" where
  "chunk_page chunker extract_anchors page heading_sections paragraphs =
     (if heading_sections = [] then chunk_by_paragraphs chunker extract_anchors page paragraphs
      else chunk_sections chunker extract_anchors page heading_sections)"

subsection \<open>The buffers of a run\<close>

text \<open>
  \<open>buffers chunker cur texts\<close>: the texts of the buffers that the loop closes, in
  order, when it starts with the buffer \<open>cur\<close> and reads the section texts \<open>texts\<close>,
  followed by the buffer that is left at the end. \<open>emitted\<close> says which of them
  become chunks: the non-empty ones that reach \<open>min_chunk_tokens\<close>.
\<close>

fun buffers :: "HeadingAwareChunker \<Rightarrow> string \<Rightarrow> string list \<Rightarrow> string list" where
  "buffers chunker cur [] = [cur]"
| "buffers chunker cur (section_text # rest) =
     (if cur \<noteq> [] \<and> estimate_tokens (cur @ '' '' @ section_text) > target_tokens chunker
      then cur # buffers chunker
                   (if get_overlap_text chunker cur \<noteq> []
                    then get_overlap_text chunker cur @ '' '' @ section_text
                    else section_text) rest
      else buffers chunker (if cur \<noteq> [] then cur @ '' '' @ section_text else section_text)
             rest)"

text \<open>
  \<open>triggers chunker cur texts\<close>: for each buffer that the loop closes, the text of
  the section whose arrival closed it (the section that line 42 measures together with
  the buffer), in the same order.
\<close>

fun triggers :: "HeadingAwareChunker \<Rightarrow> string \<Rightarrow> string list \<Rightarrow> string list" where
  "triggers chunker cur [] = []"
| "triggers chunker cur (section_text # rest) =
     (if cur \<noteq> [] \<and> estimate_tokens (cur @ '' '' @ section_text) > target_tokens chunker
      then section_text # triggers chunker
                   (if get_overlap_text chunker cur \<noteq> []
                    then get_overlap_text chunker cur @ '' '' @ section_text
                    else section_text) rest
      else triggers chunker (if cur \<noteq> [] then cur @ '' '' @ section_text else section_text)
             rest)"

text \<open>
  \<open>accumulate cur texts\<close>: the buffer after the sections \<open>texts\<close> were appended to
  the buffer \<open>cur\<close> one by one, none of them closing it (lines 58 to 64).
\<close>

definition accumulate :: "string \<Rightarrow> string list \<Rightarrow> string" where
  "accumulate cur texts =
     foldl (\<lambda>cur section_text. if cur \<noteq> [] then cur @ '' '' @ section_text else section_text)
       cur texts"

definition emitted :: "HeadingAwareChunker \<Rightarrow> string \<Rightarrow> bool" where
  "emitted chunker b = (b \<noteq> [] \<and> estimate_tokens b \<ge> min_chunk_tokens chunker)"

text \<open>The sections of a page as the loop reads them, whichever path \<open>chunk_page\<close> takes.\<close>

definition page_texts :: "Section list \<Rightarrow> Section list \<Rightarrow> string list" where
  "page_texts heading_sections paragraphs =
     map sec_text (if heading_sections = []
                   then filter (\<lambda>para. sec_text para \<noteq> []) paragraphs
                   else heading_sections)"

subsection \<open>A concrete chunker and page\<close>

text \<open>
  A chunker with small sizes (target 5 tokens, overlap 4 tokens, so one word, minimum
  3 tokens), a page and three heading sections of 24, 1 and 24 characters. No markup
  carries an anchor.
\<close>

definition small_chunker :: HeadingAwareChunker where
  "small_chunker =
     \<lparr>target_tokens = 5, overlap_tokens = 4, min_chunk_tokens = 3, chunker_anchor_map = []\<rparr>"

text \<open>The same chunker with an overlap of 8 tokens, so of two words.\<close>

definition wide_chunker :: HeadingAwareChunker where
  "wide_chunker = small_chunker\<lparr>overlap_tokens := 8\<rparr>"

definition no_anchors :: "string \<Rightarrow> (string \<times> int) list" where
  "no_anchors html = []"

definition three_sections :: "Section list" where
  "three_sections =
     [\<lparr>sec_text = ''aaaaaaaaaaaaaaaaaaaaaa b'', sec_html = ''<h1>aaaaaaaaaaaaaaaaaaaaaa b</h1>''\<rparr>,
      \<lparr>sec_text = ''c'', sec_html = ''<h2>c</h2>''\<rparr>,
      \<lparr>sec_text = ''dddddddddddddddddddddddd'', sec_html = ''<h2>dddddddddddddddddddddddd</h2>''\<rparr>]"

definition two_sections :: "Section list" where
  "two_sections =
     [\<lparr>sec_text = ''aaaaaaaaaaaaaaaaaaaaaa b'', sec_html = ''<h1>aaaaaaaaaaaaaaaaaaaaaa b</h1>''\<rparr>,
      \<lparr>sec_text = ''dddddddddddddddddddddddd'', sec_html = ''<h2>dddddddddddddddddddddddd</h2>''\<rparr>]"

section \<open>indexer.py: building, saving and loading\<close>

text \<open>
  \<open>chunk.model_dump()\<close>: the fields of a chunk in the order of their declaration,
  the source as its string value. \<open>json.dump\<close> then writes that dictionary and
  \<open>json.load\<close> reads it back; the files are modelled by the JSON documents they hold.
\<close>

definition model_dump :: "DocumentChunk \<Rightarrow> json" where
  "model_dump chunk =
     JObj [(''id'', JStr (ck_id chunk)),
           (''source'', JStr (source_value (ck_source chunk))),
           (''page_id'', JStr (ck_page_id chunk)),
           (''title'', JStr (ck_title chunk)),
           (''path'', JStr (ck_path chunk)),
           (''anchor'', case ck_anchor chunk of None \<Rightarrow> JNull | Some a \<Rightarrow> JStr a),
           (''content'', JStr (ck_content chunk)),
           (''html_content'', JStr (ck_html_content chunk)),
           (''chunk_index'', JInt (ck_chunk_index chunk)),
           (''total_chunks'', JInt (ck_total_chunks chunk)),
           (''start_offset'', JInt (ck_start_offset chunk)),
           (''end_offset'', JInt (ck_end_offset chunk)),
           (''metadata'', JObj (ck_metadata chunk))]"

text \<open>
  \<open>DocumentChunk(**kvs)\<close>: every field without a default must be there with a
  value of its type; \<open>anchor\<close> and \<open>metadata\<close> have defaults; other keys are ignored.
  \<open>None\<close> stands for pydantic's \<open>ValidationError\<close>. The validation is modelled on
  the documents that \<open>model_dump\<close> writes: pydantic's conversions of other values (a
  numeral in a string for an integer field) are not modelled and count as failures.
\<close>

definition json_str :: "json \<Rightarrow> string option" where
  "json_str j = (case j of JStr s \<Rightarrow> Some s | _ \<Rightarrow> None)"

definition json_int :: "json \<Rightarrow> int option" where
  "json_int j = (case j of JInt i \<Rightarrow> Some i | _ \<Rightarrow> None)"

definition str_field :: "(string \<times> json) list \<Rightarrow> string \<Rightarrow> string option" where
  "str_field kvs key = Option.bind (map_of kvs key) json_str"

definition int_field :: "(string \<times> json) list \<Rightarrow> string \<Rightarrow> int option" where
  "int_field kvs key = Option.bind (map_of kvs key) json_int"

definition chunk_of_fields :: "(string \<times> json) list \<Rightarrow> DocumentChunk option" where
  "chunk_of_fields kvs =
     do {
       i \<leftarrow> str_field kvs ''id'';
       src \<leftarrow> Option.bind (str_field kvs ''source'') source_of_value;
       pid \<leftarrow> str_field kvs ''page_id'';
       ttl \<leftarrow> str_field kvs ''title'';
       pth \<leftarrow> str_field kvs ''path'';
       anc \<leftarrow> (case map_of kvs ''anchor'' of
                 None \<Rightarrow> Some None
               | Some JNull \<Rightarrow> Some None
               | Some (JStr a) \<Rightarrow> Some (Some a)
               | Some _ \<Rightarrow> None);
       cnt \<leftarrow> str_field kvs ''content'';
       htm \<leftarrow> str_field kvs ''html_content'';
       cix \<leftarrow> int_field kvs ''chunk_index'';
       tot \<leftarrow> int_field kvs ''total_chunks'';
       sof \<leftarrow> int_field kvs ''start_offset'';
       eof \<leftarrow> int_field kvs ''end_offset'';
       md \<leftarrow> (case map_of kvs ''metadata'' of
                None \<Rightarrow> Some []
              | Some (JObj kv) \<Rightarrow> Some kv
              | Some _ \<Rightarrow> None);
       Some \<lparr>ck_id = i, ck_source = src, ck_page_id = pid, ck_title = ttl, ck_path = pth,
             ck_anchor = anc, ck_content = cnt, ck_html_content = htm, ck_chunk_index = cix,
             ck_total_chunks = tot, ck_start_offset = sof, ck_end_offset = eof,
             ck_metadata = md\<rparr>
     }"

text \<open>
  The index directory of one source: the four files, each absent or holding its
  content. \<open>faiss.write_index\<close>, \<open>faiss.read_index\<close> and \<open>pickle\<close> are library
  calls and parameters of the model; \<open>pickle.dump\<close> also writes \<open>None\<close>.
\<close>

record ('ff, 'bf) index_dir =
  faiss_file :: "'ff option"
  bm25_file :: "'bf option"
  metadata_file :: "json option"
  anchor_map_file :: "json option"

record ('f, 'b, 'ff, 'bf) codec =
  write_index :: "'f \<Rightarrow> 'ff"
  read_index :: "'ff \<Rightarrow> 'f"
  pickle_dump :: "'b option \<Rightarrow> 'bf"
  pickle_load :: "'bf \<Rightarrow> 'b option"

text \<open>\<open>_store_metadata\<close>: assigning to a chunk id a second time keeps its place.\<close>

definition store_metadata :: "DocumentChunk list \<Rightarrow> (string \<times> DocumentChunk \<times> int) list" where
  "store_metadata chunk_list =
     fold (\<lambda>(i, chunk) meta. AList.update (ck_id chunk) (chunk, int i) meta)
       (enumerate 0 chunk_list) []"

definition metadata_dict :: "(string \<times> DocumentChunk \<times> int) list \<Rightarrow> json" where
  "metadata_dict meta =
     JObj (map (\<lambda>(chunk_id, data).
             (chunk_id, JObj [(''chunk'', model_dump (fst data)), (''index'', JInt (snd data))]))
           meta)"

text \<open>
  \<open>_save_indices\<close> writes the four files. \<open>faiss.write_index\<close> does not take
  \<open>None\<close>.
\<close>

definition save_indices ::
  "('f, 'b, 'ff, 'bf) codec \<Rightarrow> ('f, 'b) HybridIndexer \<Rightarrow> error + ('ff, 'bf) index_dir" where
  "save_indices cd ix =
     (case faiss_index ix of
        None \<Rightarrow> Inl (TypeError ''write_index'')
      | Some f \<Rightarrow>
          Inr \<lparr>faiss_file = Some (write_index cd f),
               bm25_file = Some (pickle_dump cd (bm25_index ix)),
               metadata_file = Some (metadata_dict (chunk_metadata ix)),
               anchor_map_file = Some (JObj (anchor_map ix))\<rparr>)"

text \<open>
  \<open>build_index\<close>. The optional \<open>anchor_map\<close> argument replaces the stored map when
  it is given and not empty. The result is the indexer after the build and the
  directory it wrote.
\<close>

definition build_index ::
  "('f, 'b, 'v) env \<Rightarrow> ('f, 'b, 'ff, 'bf) codec \<Rightarrow> ('f, 'b) HybridIndexer \<Rightarrow> DocumentChunk list
     \<Rightarrow> (string \<times> json) list option
     \<Rightarrow> error + (('f, 'b) HybridIndexer \<times> ('ff, 'bf) index_dir)" where
  "build_index ev cd ix chunk_list anchor_map_arg =
     (if chunk_list = [] then Inl (ValueError ''No chunks provided for indexing'')
      else
        (let ix1 = (case anchor_map_arg of
                      None \<Rightarrow> ix
                    | Some m \<Rightarrow> if m = [] then ix else ix\<lparr>anchor_map := m\<rparr>);
             texts = map ck_content chunk_list;
             embeddings = encode ev (embedding_model_name ix1) texts;
             ix2 = ix1\<lparr>faiss_index := Some (faiss_build ev embeddings)\<rparr>;
             tokenized_texts = map (\<lambda>text. split (lower text)) texts;
             ix3 = ix2\<lparr>bm25_index := Some (bm25_build ev tokenized_texts)\<rparr>;
             ix4 = ix3\<lparr>chunk_metadata := store_metadata chunk_list\<rparr>
         in case save_indices cd ix4 of
              Inl e \<Rightarrow> Inl e
            | Inr d \<Rightarrow> Inr (ix4, d)))"

text \<open>
  The loop of \<open>load_indices\<close> over the items of the metadata document. An item that
  is not a dictionary with a \<open>'chunk'\<close> dictionary and an \<open>'index'\<close> ends the load
  with an error. The model keeps the position as an integer, so an \<open>'index'\<close> of
  another kind, which \<open>_save_indices\<close> never writes, counts as an error too.
\<close>

fun load_metadata ::
  "(string \<times> json) list \<Rightarrow> (string \<times> DocumentChunk \<times> int) list
     \<Rightarrow> error + (string \<times> DocumentChunk \<times> int) list" where
  "load_metadata [] meta = Inr meta"
| "load_metadata ((chunk_id, data) # items) meta =
     (case data of
        JObj kv \<Rightarrow>
          (case map_of kv ''chunk'' of
             None \<Rightarrow> Inl (KeyError ''chunk'')
           | Some (JObj kvs) \<Rightarrow>
               (case chunk_of_fields kvs of
                  None \<Rightarrow> Inl (ValidationError ''DocumentChunk'')
                | Some chunk \<Rightarrow>
                    (case map_of kv ''index'' of
                       None \<Rightarrow> Inl (KeyError ''index'')
                     | Some (JInt i) \<Rightarrow>
                         load_metadata items (AList.update chunk_id (chunk, i) meta)
                     | Some _ \<Rightarrow> Inl (TypeError ''index'')))
           | Some _ \<Rightarrow> Inl (TypeError ''chunk''))
      | _ \<Rightarrow> Inl (TypeError ''data''))"

text \<open>
  \<open>load_indices\<close> on an indexer: the first three files must exist; the anchor map is
  read when its file exists and left as it is otherwise. Python assigns the fields one
  by one, so an error leaves the instance partly loaded; the model returns the error
  alone. The anchor map is kept as a dictionary, so an anchor map file that holds
  another kind of document, which \<open>_save_indices\<close> never writes, counts as an error.
\<close>

definition load_indices ::
  "('f, 'b, 'ff, 'bf) codec \<Rightarrow> ('ff, 'bf) index_dir \<Rightarrow> ('f, 'b) HybridIndexer
     \<Rightarrow> error + ('f, 'b) HybridIndexer" where
  "load_indices cd d ix =
     (case faiss_file d of
        None \<Rightarrow> Inl (FileNotFoundError ''FAISS index not found'')
      | Some ff \<Rightarrow>
          (case bm25_file d of
             None \<Rightarrow> Inl (FileNotFoundError ''BM25 index not found'')
           | Some bf \<Rightarrow>
               (case metadata_file d of
                  None \<Rightarrow> Inl (FileNotFoundError ''Metadata not found'')
                | Some (JObj items) \<Rightarrow>
                    (case load_metadata items [] of
                       Inl e \<Rightarrow> Inl e
                     | Inr meta \<Rightarrow>
                         (let ix1 = ix\<lparr>faiss_index := Some (read_index cd ff),
                                        bm25_index := pickle_load cd bf,
                                        chunk_metadata := meta\<rparr>
                          in case anchor_map_file d of
                               None \<Rightarrow> Inr ix1
                             | Some (JObj m) \<Rightarrow> Inr (ix1\<lparr>anchor_map := m\<rparr>)
                             | Some _ \<Rightarrow> Inl (TypeError ''anchor_map'')))
                | Some _ \<Rightarrow> Inl (TypeError ''metadata''))))"

subsection \<open>Concrete chunks and serialisers\<close>

text \<open>
  Two chunks, a serialiser that stores the objects as they are, and a second
  environment that differs from \<open>demo_env\<close> in the iteration order of sets only.
\<close>

definition mk_chunk :: "string \<Rightarrow> int \<Rightarrow> string \<Rightarrow> DocumentChunk" where
  "mk_chunk pid i text =
     \<lparr>ck_id = pid @ ''_chunk_'' @ str_int i, ck_source = ARXMGD, ck_page_id = pid,
      ck_title = ''Title'', ck_path = ''p.html'', ck_anchor = None, ck_content = text,
      ck_html_content = text, ck_chunk_index = i, ck_total_chunks = 2, ck_start_offset = 0,
      ck_end_offset = int (length text),
      ck_metadata = [(''word_count'', JInt (int (length (split text))))]\<rparr>"

definition two_chunks :: "DocumentChunk list" where
  "two_chunks = [mk_chunk ''P'' 0 ''alpha arc'', mk_chunk ''P'' 1 ''beta circle'']"

definition id_codec :: "(nat list, string list list, nat list, string list list option) codec" where
  "id_codec =
     \<lparr>write_index = (\<lambda>f. f), read_index = (\<lambda>ff. ff),
      pickle_dump = (\<lambda>b. b), pickle_load = (\<lambda>bf. bf)\<rparr>"

definition demo_env_rev :: "(nat list, string list list, nat) env" where
  "demo_env_rev = demo_env\<lparr>set_iter := (\<lambda>xs ys. rev (remdups (xs @ ys)))\<rparr>"

text \<open>
  The indexer and the directory after \<open>build_index\<close> on the two chunks; the indexer
  that a new instance with the same embedding model becomes by \<open>load_indices\<close> from
  that directory, and the one that a new instance with another embedding model becomes;
  the ids and the scores of a search result.
\<close>

definition demo_built ::
  "(nat list, string list list) HybridIndexer \<times> (nat list, string list list option) index_dir"
  where
  "demo_built =
     projr (build_index demo_env id_codec (new_indexer default_model) two_chunks None)"

definition demo_loaded :: "(nat list, string list list) HybridIndexer" where
  "demo_loaded =
     projr (load_indices id_codec (snd demo_built) (new_indexer default_model))"

definition other_model :: string where
  "other_model = ''sentence-transformers/paraphrase-multilingual-mpnet-base-v2''"

definition demo_loaded_other :: "(nat list, string list list) HybridIndexer" where
  "demo_loaded_other =
     projr (load_indices id_codec (snd demo_built) (new_indexer other_model))"

definition result_ids :: "error + SearchResult list \<Rightarrow> string list option" where
  "result_ids r = (case r of Inl e \<Rightarrow> None | Inr results \<Rightarrow> Some (map sr_id results))"

definition result_scores :: "error + SearchResult list \<Rightarrow> real list option" where
  "result_scores r = (case r of Inl e \<Rightarrow> None | Inr results \<Rightarrow> Some (map sr_score results))"

section \<open>Reciprocal Rank Fusion\<close>

subsection \<open>The candidate lists name every chunk once\<close>

text \<open>
  The chunk metadata is a dictionary, so its keys are pairwise different. Then the
  lexical ranker returns no chunk id twice, and the dense ranker returns none twice
  when the vector index returns no position twice.
\<close>

lemma find_SomeD: "List.find P xs = Some x \<Longrightarrow> x \<in> set xs \<and> P x"
  by (induction xs) (auto split: if_splits)

lemma chunk_id_at_Some:
  assumes "chunk_id_at meta i = Some c"
  shows "\<exists>chunk. (c, chunk, i) \<in> set meta"
proof -
  from assms obtain p where p: "List.find (\<lambda>(chunk_id, data). snd data = i) meta = Some p"
    "fst p = c"
    by (auto simp: chunk_id_at_def)
  from find_SomeD[OF p(1)] have "p \<in> set meta" "snd (snd p) = i"
    by (auto split: prod.splits)
  with p(2) have "(c, fst (snd p), i) \<in> set meta"
    by (metis prod.collapse)
  then show ?thesis ..
qed

lemma chunk_id_at_inj:
  assumes "distinct (map fst meta)"
    and "chunk_id_at meta i = Some c" and "chunk_id_at meta j = Some c"
  shows "i = j"
proof -
  from chunk_id_at_Some[OF assms(2)] chunk_id_at_Some[OF assms(3)]
  obtain ch ch' where "(c, ch, i) \<in> set meta" "(c, ch', j) \<in> set meta" by blast
  with assms(1) have "(ch, i) = (ch', j)"
    by (meson eq_key_imp_eq_value)
  then show ?thesis by simp
qed

lemma lookup_distinct:
  assumes "distinct (map fst meta)"
  shows "distinct idxs \<Longrightarrow>
     distinct (map fst (concat (map (\<lambda>i. case chunk_id_at meta (int i) of
                 Some chunk_id \<Rightarrow> [(chunk_id, s i)] | None \<Rightarrow> []) idxs)))"
proof (induction idxs)
  case Nil
  then show ?case by simp
next
  case (Cons i idxs)
  show ?case
  proof (cases "chunk_id_at meta (int i)")
    case None
    with Cons show ?thesis by simp
  next
    case (Some c)
    have "c \<notin> fst ` set (concat (map (\<lambda>i. case chunk_id_at meta (int i) of
                 Some chunk_id \<Rightarrow> [(chunk_id, s i)] | None \<Rightarrow> []) idxs))"
    proof
      assume "c \<in> fst ` set (concat (map (\<lambda>i. case chunk_id_at meta (int i) of
                 Some chunk_id \<Rightarrow> [(chunk_id, s i)] | None \<Rightarrow> []) idxs))"
      then obtain j where j: "j \<in> set idxs" "chunk_id_at meta (int j) = Some c"
        by (auto split: option.splits)
      from chunk_id_at_inj[OF assms Some j(2)] have "i = j" by simp
      with Cons.prems j show False by auto
    qed
    with Cons Some show ?thesis by simp
  qed
qed

lemma bm25_search_distinct:
  assumes "distinct (map fst (chunk_metadata ix))"
  shows "distinct (map fst (bm25_search ev ix b query k))"
proof -
  let ?scores = "bm25_get_scores ev b (split (lower query))"
  let ?top = "slice_to (sort_key (\<lambda>i. - (?scores ! i)) [0..<length ?scores]) k"
  have "distinct ?top"
    by (simp add: slice_to_def)
  from lookup_distinct[OF assms this, of "\<lambda>i. ?scores ! i"]
  show ?thesis
    by (simp add: bm25_search_def Let_def)
qed

lemma faiss_hit_cases:
  "faiss_hit meta (score, idx) = [] \<or>
   (\<exists>c. chunk_id_at meta idx = Some c \<and> faiss_hit meta (score, idx) = [(c, score)])"
  by (auto simp: faiss_hit_def split: option.splits)

lemma faiss_lookup_distinct:
  assumes "distinct (map fst meta)"
  shows "distinct (map snd res) \<Longrightarrow>
     distinct (map fst (concat (map (faiss_hit meta) res)))"
proof (induction res)
  case Nil
  then show ?case by simp
next
  case (Cons r res)
  obtain score idx where r: "r = (score, idx)" by (cases r)
  from Cons have ih: "distinct (map fst (concat (map (faiss_hit meta) res)))" by simp
  from faiss_hit_cases[of meta score idx] show ?case
  proof
    assume "faiss_hit meta (score, idx) = []"
    with ih r show ?thesis by simp
  next
    assume "\<exists>c. chunk_id_at meta idx = Some c \<and> faiss_hit meta (score, idx) = [(c, score)]"
    then obtain c where c: "chunk_id_at meta idx = Some c"
      "faiss_hit meta (score, idx) = [(c, score)]" by blast
    have "c \<notin> fst ` set (concat (map (faiss_hit meta) res))"
    proof
      assume "c \<in> fst ` set (concat (map (faiss_hit meta) res))"
      then obtain x y where xy: "x \<in> set res" "(c, y) \<in> set (faiss_hit meta x)"
        by auto
      obtain s j where sj: "x = (s, j)" by (cases x)
      from faiss_hit_cases[of meta s j] xy sj have j: "chunk_id_at meta j = Some c"
        by auto
      from chunk_id_at_inj[OF assms c(1) j] have "idx = j" .
      with Cons.prems r xy(1) sj show False by force
    qed
    with ih c r show ?thesis by simp
  qed
qed

lemma faiss_search_distinct:
  assumes "distinct (map fst (chunk_metadata ix))"
    and "distinct (map snd (faiss_query ev f (encode ev (embedding_model_name ix) [query]) k))"
  shows "distinct (map fst (faiss_search ev ix f query k))"
  unfolding faiss_search_def Let_def by (rule faiss_lookup_distinct[OF assms])

subsection \<open>The fused scores\<close>

lemma ranks_fold_distinct:
  "distinct (map fst xs) \<Longrightarrow>
   fold (\<lambda>(rank, (chunk_id, _)) m. m(chunk_id \<mapsto> int rank)) (enumerate n xs) m c =
     (case index_of c (map fst xs) of None \<Rightarrow> m c | Some i \<Rightarrow> Some (int (n + i)))"
proof (induction xs arbitrary: n m)
  case Nil
  then show ?case by simp
next
  case (Cons x xs)
  obtain a b where x: "x = (a, b)" by (cases x)
  from Cons.prems have d: "distinct (map fst xs)" and a: "a \<notin> fst ` set xs" by (auto simp: x)
  have none: "c = a \<Longrightarrow> index_of c (map fst xs) = None"
    using a by (induction xs) auto
  show ?case
    using Cons.IH[OF d, of "Suc n" "m(a \<mapsto> int n)"] none
    by (auto simp: x split: option.splits)
qed

lemma ranks_distinct:
  "distinct (map fst xs) \<Longrightarrow> get_default (ranks xs) c 60 = rank_in c xs"
  by (simp add: ranks_def get_default_def rank_in_def ranks_fold_distinct split: option.splits)

lemma rank_in_nonneg: "0 \<le> rank_in c xs"
  by (simp add: rank_in_def split: option.splits)

lemma rrf_at_60:
  assumes "distinct (map fst F)" and "distinct (map fst B)"
  shows "reciprocal_rank_fusion ev F B 60 =
     Inr (sort_key (\<lambda>x. - snd x)
       (map (\<lambda>c. (c, rrf_score 60 (rank_in c F) (rank_in c B)))
            (set_iter ev (map fst F) (map fst B))))"
proof -
  have nz: "\<And>c X. 61 + rank_in c X \<noteq> 0"
    using rank_in_nonneg by (smt (verit))
  show ?thesis
    unfolding reciprocal_rank_fusion_def Let_def
    by (simp add: ranks_distinct[OF assms(1)] ranks_distinct[OF assms(2)] nz)
qed

lemma sorted_desc_sort_key:
  "sorted_wrt (\<ge>) (map snd (sort_key (\<lambda>x. - snd x) (xs :: ('a \<times> real) list)))"
proof -
  have "sorted (map (\<lambda>x. - snd x) (sort_key (\<lambda>x. - snd x) xs))"
    by (rule sorted_sort_key)
  then show ?thesis
    by (simp add: sorted_wrt_map)
qed

text \<open>
  Claim C1. When each ranker's candidate list names a chunk at most once (the rankers
  return every index once), and whatever the order in which Python iterates over the
  union of the two candidate sets, \<open>_reciprocal_rank_fusion\<close> with the default
  \<open>k = 60\<close> returns normally; every entry of its result pairs a chunk \<open>c\<close> with
  \<open>1/(60 + rank_dense + 1) + 1/(60 + rank_lexical + 1)\<close>, where the rank is the
  0-based position of \<open>c\<close> in that ranker's list and 60 when the list does not hold it;
  the chunks of the result are exactly the union of the two candidate sets, each once;
  and the scores descend along the result.
\<close>

theorem rrf_fused_scores_sorted:
  assumes "distinct (map fst faiss_scores)" and "distinct (map fst bm25_scores)"
    and "set (set_iter ev (map fst faiss_scores) (map fst bm25_scores))
         = set (map fst faiss_scores) \<union> set (map fst bm25_scores)"
    and "distinct (set_iter ev (map fst faiss_scores) (map fst bm25_scores))"
  shows "\<exists>out. reciprocal_rank_fusion ev faiss_scores bm25_scores 60 = Inr out
     \<and> (\<forall>(c, s) \<in> set out.
           s = 1 / (60 + real_of_int (rank_in c faiss_scores) + 1)
             + 1 / (60 + real_of_int (rank_in c bm25_scores) + 1))
     \<and> fst ` set out = fst ` set faiss_scores \<union> fst ` set bm25_scores
     \<and> distinct (map fst out)
     \<and> sorted_wrt (\<ge>) (map snd out)"
proof -
  let ?ids = "set_iter ev (map fst faiss_scores) (map fst bm25_scores)"
  let ?f = "\<lambda>c. (c, rrf_score 60 (rank_in c faiss_scores) (rank_in c bm25_scores))"
  let ?out = "sort_key (\<lambda>x. - snd x) (map ?f ?ids)"
  have eq: "reciprocal_rank_fusion ev faiss_scores bm25_scores 60 = Inr ?out"
    by (rule rrf_at_60[OF assms(1,2)])
  have scores: "\<forall>(c, s) \<in> set ?out.
           s = 1 / (60 + real_of_int (rank_in c faiss_scores) + 1)
             + 1 / (60 + real_of_int (rank_in c bm25_scores) + 1)"
    by (auto simp: rrf_score_def)
  have "fst ` set ?out = set ?ids"
    by (simp add: image_image)
  then have union: "fst ` set ?out = fst ` set faiss_scores \<union> fst ` set bm25_scores"
    using assms(3) by simp
  have "distinct (map ?f ?ids)"
    using assms(4) by (simp add: distinct_map inj_on_def)
  moreover have "inj_on fst (set ?out)"
    by (auto simp: inj_on_def)
  ultimately have dist: "distinct (map fst ?out)"
    by (simp add: distinct_map)
  show ?thesis
    using eq scores union dist sorted_desc_sort_key by blast
qed

theorem rrf_fused_scores_sorted_witness:
  "distinct (map fst [(''a'', 1::real), (''b'', 2)]) \<and> distinct (map fst [(''b'', 3::real), (''c'', 1)])
   \<and> set (set_iter demo_env (map fst [(''a'', 1::real), (''b'', 2)]) (map fst [(''b'', 3::real), (''c'', 1)]))
         = set (map fst [(''a'', 1::real), (''b'', 2)]) \<union> set (map fst [(''b'', 3::real), (''c'', 1)])
   \<and> distinct (set_iter demo_env (map fst [(''a'', 1::real), (''b'', 2)]) (map fst [(''b'', 3::real), (''c'', 1)]))
   \<and> (\<exists>out. reciprocal_rank_fusion demo_env [(''a'', 1), (''b'', 2)] [(''b'', 3), (''c'', 1)] 60 = Inr out
     \<and> (\<forall>(c, s) \<in> set out.
           s = 1 / (60 + real_of_int (rank_in c [(''a'', 1), (''b'', 2)]) + 1)
             + 1 / (60 + real_of_int (rank_in c [(''b'', 3), (''c'', 1)]) + 1))
     \<and> fst ` set out = fst ` set [(''a'', 1::real), (''b'', 2)] \<union> fst ` set [(''b'', 3::real), (''c'', 1)]
     \<and> distinct (map fst out)
     \<and> sorted_wrt (\<ge>) (map snd out))"
proof -
  let ?F = "[(''a'', 1::real), (''b'', 2)]" and ?B = "[(''b'', 3::real), (''c'', 1)]"
  have h1: "distinct (map fst ?F)" and h2: "distinct (map fst ?B)" by simp_all
  have h3: "set (set_iter demo_env (map fst ?F) (map fst ?B)) = set (map fst ?F) \<union> set (map fst ?B)"
    by (auto simp: demo_env_def)
  have h4: "distinct (set_iter demo_env (map fst ?F) (map fst ?B))"
    by (simp add: demo_env_def)
  show ?thesis
    using rrf_fused_scores_sorted[OF h1 h2 h3 h4] h1 h2 h3 h4 by blast
qed

text \<open>
  Claim C4. Under the same conditions, a chunk that stands at position 0 of both
  candidate lists is in the fused result, and no entry of the result has a higher
  fused score than it has.
\<close>

theorem rrf_first_in_both_is_top:
  assumes "distinct (map fst faiss_scores)" and "distinct (map fst bm25_scores)"
    and "set (set_iter ev (map fst faiss_scores) (map fst bm25_scores))
         = set (map fst faiss_scores) \<union> set (map fst bm25_scores)"
    and "faiss_scores \<noteq> []" and "fst (faiss_scores ! 0) = c"
    and "bm25_scores \<noteq> []" and "fst (bm25_scores ! 0) = c"
  shows "\<exists>out s. reciprocal_rank_fusion ev faiss_scores bm25_scores 60 = Inr out
     \<and> (c, s) \<in> set out \<and> (\<forall>(c', s') \<in> set out. s' \<le> s)"
proof -
  let ?ids = "set_iter ev (map fst faiss_scores) (map fst bm25_scores)"
  let ?f = "\<lambda>c. (c, rrf_score 60 (rank_in c faiss_scores) (rank_in c bm25_scores))"
  let ?out = "sort_key (\<lambda>x. - snd x) (map ?f ?ids)"
  have eq: "reciprocal_rank_fusion ev faiss_scores bm25_scores 60 = Inr ?out"
    by (rule rrf_at_60[OF assms(1,2)])
  have r0: "rank_in c faiss_scores = 0" "rank_in c bm25_scores = 0"
    using assms(4-7) by (cases faiss_scores; cases bm25_scores; simp add: rank_in_def)+
  have "c \<in> set ?ids"
    using assms(3,4,5) by (cases faiss_scores) auto
  then have mem: "(c, rrf_score 60 0 0) \<in> set ?out"
    using r0 by (auto simp: image_iff)
  have le: "rrf_score 60 a b \<le> rrf_score 60 0 0" if "0 \<le> a" "0 \<le> b" for a b
  proof -
    have "1 / real_of_int (60 + a + 1) \<le> 1 / real_of_int (60 + 0 + 1)"
      and "1 / real_of_int (60 + b + 1) \<le> 1 / real_of_int (60 + 0 + 1)"
      using that by (auto intro!: divide_left_mono)
    then show ?thesis
      unfolding rrf_score_def by (rule add_mono)
  qed
  have top: "\<forall>(c', s') \<in> set ?out. s' \<le> rrf_score 60 0 0"
    using le rank_in_nonneg by auto
  show ?thesis
    using eq mem top by blast
qed

theorem rrf_first_in_both_is_top_witness:
  "\<exists>out s. reciprocal_rank_fusion demo_env [(''a'', 1), (''b'', 2)] [(''a'', 3), (''c'', 1)] 60 = Inr out
     \<and> (''a'', s) \<in> set out \<and> (\<forall>(c', s') \<in> set out. s' \<le> s)"
proof -
  let ?F = "[(''a'', 1::real), (''b'', 2)]" and ?B = "[(''a'', 3::real), (''c'', 1)]"
  have h1: "distinct (map fst ?F)" and h2: "distinct (map fst ?B)" by simp_all
  have h3: "set (set_iter demo_env (map fst ?F) (map fst ?B)) = set (map fst ?F) \<union> set (map fst ?B)"
    by (auto simp: demo_env_def)
  show ?thesis
    using rrf_first_in_both_is_top[OF h1 h2 h3, of "''a''"] by simp
qed

section \<open>Searching an index that was not built\<close>

text \<open>
  Claim C9. When the dense index or the lexical index is missing, \<open>search\<close> raises
  \<open>RuntimeError("Indices not loaded")\<close> for every query and every \<open>k\<close>; that outcome
  is not the empty result list.
\<close>

theorem search_unbuilt_index_fails:
  assumes "faiss_index ix = None \<or> bm25_index ix = None"
  shows "search ev ix query k = Inl (RuntimeError ''Indices not loaded'')
     \<and> search ev ix query k \<noteq> Inr []"
  using assms by (auto simp: search_def split: option.splits)

theorem search_unbuilt_index_fails_witness:
  "(faiss_index (new_indexer default_model :: (nat list, string list list) HybridIndexer) = None
      \<or> bm25_index (new_indexer default_model :: (nat list, string list list) HybridIndexer)
          = None)
   \<and> search demo_env (new_indexer default_model) ''arc'' 10
       = Inl (RuntimeError ''Indices not loaded'')
   \<and> search demo_env (new_indexer default_model) ''arc'' 10 \<noteq> Inr []"
  using search_unbuilt_index_fails[of "new_indexer default_model" demo_env "''arc''" 10]
  by (simp add: new_indexer_def)

section \<open>The link graph\<close>

text \<open>The definitions that a run on a concrete input unfolds.\<close>

lemmas graph_eval = build_graph_def index_pages_def mk_page_def link_parent_def
  add_see_also_relationships_def add_see_also_link_def resolve_link_path_def
  graph_entry_def posix_join_parent_def posix_root_def posix_parts_def posix_str_def
  node_id_def Let_def suffix_to_prefix

subsection \<open>One link\<close>

lemma dom_apply_link [simp]: "dom (apply_link l g) = dom g"
  by (auto simp: apply_link_def Let_def split: option.splits if_splits)

lemma see_also_apply_link [simp]:
  "map_option see_also (apply_link l g q) = map_option see_also (g q)"
  by (auto simp: apply_link_def Let_def split: option.splits if_splits)

lemma children_apply_link_mono:
  "g q = Some e \<Longrightarrow> \<exists>e'. apply_link l g q = Some e' \<and> set (children e) \<subseteq> set (children e')"
  by (auto simp: apply_link_def Let_def split: option.splits if_splits)

lemma apply_link_effect:
  assumes "p \<in> dom g" and "c \<in> dom g"
  shows "\<exists>ec ep. apply_link (p, c) g c = Some ec \<and> parent ec = Some p
           \<and> apply_link (p, c) g p = Some ep \<and> c \<in> set (children ep)"
  using assms by (auto simp: apply_link_def Let_def split: option.splits if_splits)

lemma parent_apply_link_other:
  "q \<noteq> snd l \<Longrightarrow> map_option parent (apply_link l g q) = map_option parent (g q)"
  by (auto simp: apply_link_def Let_def split: option.splits if_splits)

lemma dom_fold_apply_link [simp]: "dom (fold apply_link ls g) = dom g"
  by (induction ls arbitrary: g) auto

lemma see_also_fold_apply_link [simp]:
  "map_option see_also (fold apply_link ls g q) = map_option see_also (g q)"
  by (induction ls arbitrary: g) auto

lemma children_fold_apply_link_mono:
  "g q = Some e \<Longrightarrow>
   \<exists>e'. fold apply_link ls g q = Some e' \<and> set (children e) \<subseteq> set (children e')"
proof (induction ls arbitrary: g e)
  case Nil
  then show ?case by simp
next
  case (Cons l ls)
  obtain e1 where e1: "apply_link l g q = Some e1" "set (children e) \<subseteq> set (children e1)"
    using children_apply_link_mono[of g q e l] Cons.prems by blast
  from Cons.IH[of "apply_link l g" e1] e1 show ?case by auto
qed

lemma fold_apply_link_child:
  assumes "(p, c) \<in> set ls" and "p \<in> dom g" and "c \<in> dom g"
  shows "\<exists>ep. fold apply_link ls g p = Some ep \<and> c \<in> set (children ep)"
  using assms
proof (induction ls arbitrary: g)
  case Nil
  then show ?case by simp
next
  case (Cons l ls)
  show ?case
  proof (cases "l = (p, c)")
    case True
    from apply_link_effect[OF Cons.prems(2,3)]
    obtain ep where ep: "apply_link (p, c) g p = Some ep" "c \<in> set (children ep)"
      by blast
    from children_fold_apply_link_mono[of "apply_link (p, c) g" p ep ls] ep True
    show ?thesis by auto
  next
    case False
    with Cons.prems have "(p, c) \<in> set ls" by simp
    from Cons.IH[OF this, of "apply_link l g"] Cons.prems(2,3)
    show ?thesis by simp
  qed
qed

lemma fold_apply_link_parent:
  assumes "filter (\<lambda>l. snd l = c) ls \<noteq> []"
    and "\<forall>l \<in> set ls. fst l \<in> dom g \<and> snd l \<in> dom g"
  shows "\<exists>ec. fold apply_link ls g c = Some ec
           \<and> parent ec = Some (fst (last (filter (\<lambda>l. snd l = c) ls)))"
  using assms
proof (induction ls rule: rev_induct)
  case Nil
  then show ?case by simp
next
  case (snoc l ls)
  let ?g = "fold apply_link ls g"
  show ?case
  proof (cases "snd l = c")
    case True
    from snoc.prems(2) have "fst l \<in> dom ?g" "c \<in> dom ?g"
      using True by auto
    from apply_link_effect[OF this] True show ?thesis
      by (cases l) auto
  next
    case False
    with snoc.prems have ne: "filter (\<lambda>l. snd l = c) ls \<noteq> []"
      and d: "\<forall>l \<in> set ls. fst l \<in> dom g \<and> snd l \<in> dom g" by auto
    from snoc.IH[OF ne d] obtain ec where ec: "?g c = Some ec"
      "parent ec = Some (fst (last (filter (\<lambda>l. snd l = c) ls)))" by blast
    have "map_option parent (apply_link l ?g c) = map_option parent (?g c)"
      using False by (intro parent_apply_link_other) auto
    with ec False show ?thesis by auto
  qed
qed

subsection \<open>The walk over the table of contents\<close>

lemma link_parent_apply:
  assumes "p \<in> dom g" and "c \<in> dom g"
  shows "link_parent g (Some p) c = Inr (if p = [] then g else apply_link (p, c) g)"
  using assms by (auto simp: link_parent_def apply_link_def Let_def split: option.splits)

lemma link_parent_None [simp]: "link_parent g None c = Inr g"
  by (simp add: link_parent_def)

lemma walk_refines:
  "ids_have_entries m g \<Longrightarrow> (\<forall>p. par = Some p \<longrightarrow> p \<in> dom g) \<Longrightarrow>
     process_toc_node m n par g = Inr (fold apply_link (toc_links m n par) g)"
  "ids_have_entries m g \<Longrightarrow> (\<forall>p. par = Some p \<longrightarrow> p \<in> dom g) \<Longrightarrow>
     process_toc_nodes m ns par g = Inr (fold apply_link (toc_links_list m ns par) g)"
proof (induction m n par g and m ns par g rule: process_toc_node_process_toc_nodes.induct)
  case (1 m title path chs par g)
  show ?case
  proof (cases "node_id m (TOCTreeNode title path chs)")
    case None
    then have "process_toc_node m (TOCTreeNode title path chs) par g = process_toc_nodes m chs par g"
      by (auto simp: node_id_def split: option.splits if_splits)
    moreover have "process_toc_nodes m chs par g = Inr (fold apply_link (toc_links_list m chs par) g)"
      using None 1 by (auto simp: node_id_def split: option.splits if_splits)
    ultimately show ?thesis using None by simp
  next
    case (Some c)
    then have c: "path \<noteq> []" "m path = Some c" "c \<noteq> []"
      by (auto simp: node_id_def split: option.splits if_splits)
    with "1.prems" have cd: "c \<in> dom g" by (auto simp: ids_have_entries_def)
    show ?thesis
    proof (cases par)
      case None
      have "process_toc_nodes m chs (Some c) g = Inr (fold apply_link (toc_links_list m chs (Some c)) g)"
        using "1.IH"(4)[OF c(1,2,3), of g] "1.prems" cd None by simp
      then show ?thesis using c Some None by simp
    next
      case (Some p)
      with "1.prems" have pd: "p \<in> dom g" by simp
      let ?g1 = "if p = [] then g else apply_link (p, c) g"
      have lp: "link_parent g par c = Inr ?g1"
        using link_parent_apply[OF pd cd] Some by simp
      have inv: "ids_have_entries m ?g1" "c \<in> dom ?g1"
        using "1.prems" cd by (auto simp: ids_have_entries_def)
      have "process_toc_nodes m chs (Some c) ?g1
              = Inr (fold apply_link (toc_links_list m chs (Some c)) ?g1)"
        using "1.IH"(4)[OF c(1,2,3) lp inv(1)] inv(2) by simp
      then show ?thesis using c \<open>node_id m (TOCTreeNode title path chs) = Some c\<close> Some lp
        by simp
    qed
  qed
next
  case (2 m par g)
  then show ?case by simp
next
  case (3 m node nodes par g)
  let ?g1 = "fold apply_link (toc_links m node par) g"
  have a: "process_toc_node m node par g = Inr ?g1"
    using 3 by simp
  have "ids_have_entries m ?g1" "\<forall>p. par = Some p \<longrightarrow> p \<in> dom ?g1"
    using "3.prems" by (auto simp: ids_have_entries_def)
  from "3.IH"(2)[OF a this] a show ?case by simp
qed


subsection \<open>The path index\<close>

lemma index_pages_fold_path_to_id:
  "fst (fold (\<lambda>page (path_to_id, graph).
            (path_to_id(pg_path page \<mapsto> pg_id page),
             graph(pg_id page \<mapsto> \<lparr>parent = None, children = [], see_also = []\<rparr>))) pages (m, g))
   = m ++ map_of (rev (map (\<lambda>p. (pg_path p, pg_id p)) pages))"
proof (induction pages arbitrary: m g)
  case Nil
  then show ?case by simp
next
  case (Cons page pages)
  let ?F = "\<lambda>page (path_to_id, graph).
            (path_to_id(pg_path page \<mapsto> pg_id page),
             graph(pg_id page \<mapsto> \<lparr>parent = None, children = [], see_also = []\<rparr>))"
  let ?f = "\<lambda>p. (pg_path p, pg_id p)"
  have "fst (fold ?F (page # pages) (m, g))
      = fst (fold ?F pages (m(pg_path page \<mapsto> pg_id page),
               g(pg_id page \<mapsto> \<lparr>parent = None, children = [], see_also = []\<rparr>)))"
    by simp
  also have "\<dots> = m(pg_path page \<mapsto> pg_id page) ++ map_of (rev (map ?f pages))"
    by (rule Cons.IH)
  also have "\<dots> = m ++ map_of (rev (map ?f (page # pages)))"
    by (simp add: map_add_def fun_eq_iff split: option.splits)
  finally show ?case .
qed

lemma index_pages_path:
  assumes "distinct (map pg_path pages)" and "page \<in> set pages"
  shows "fst (index_pages pages) (pg_path page) = Some (pg_id page)"
proof -
  let ?xs = "rev (map (\<lambda>p. (pg_path p, pg_id p)) pages)"
  have "distinct (map fst ?xs)"
    using assms(1) by (simp add: rev_map[symmetric] comp_def)
  moreover have "(pg_path page, pg_id page) \<in> set ?xs"
    using assms(2) by auto
  ultimately have "map_of ?xs (pg_path page) = Some (pg_id page)"
    by (simp only: map_of_eq_Some_iff)
  then show ?thesis
    by (simp add: index_pages_def index_pages_fold_path_to_id)
qed

lemma index_pages_fold_inv:
  "ids_have_entries m g \<Longrightarrow> fresh_entries g \<Longrightarrow>
   fold (\<lambda>page (path_to_id, graph).
            (path_to_id(pg_path page \<mapsto> pg_id page),
             graph(pg_id page \<mapsto> \<lparr>parent = None, children = [], see_also = []\<rparr>))) pages (m, g)
     = (m', g') \<Longrightarrow> ids_have_entries m' g' \<and> fresh_entries g'"
proof (induction pages arbitrary: m g)
  case Nil
  then show ?case by simp
next
  case (Cons page pages)
  let ?m = "m(pg_path page \<mapsto> pg_id page)"
  let ?g = "g(pg_id page \<mapsto> \<lparr>parent = None, children = [], see_also = []\<rparr>)"
  have "ids_have_entries ?m ?g" "fresh_entries ?g"
    using Cons.prems(1,2) by (auto simp: ids_have_entries_def fresh_entries_def)
  from Cons.IH[OF this] Cons.prems(3) show ?case by simp
qed

lemma index_pages_inv:
  "index_pages pages = (m, g) \<Longrightarrow> ids_have_entries m g \<and> fresh_entries g"
  unfolding index_pages_def
  by (rule index_pages_fold_inv[of Map.empty Map.empty])
     (simp_all add: ids_have_entries_def fresh_entries_def)

subsection \<open>The links of the walk\<close>

lemma toc_links_ids:
  "(p, c) \<in> set (toc_links m n par) \<Longrightarrow>
     (par = Some p \<or> (\<exists>k. m k = Some p)) \<and> (\<exists>k. m k = Some c)"
  "(p, c) \<in> set (toc_links_list m ns par) \<Longrightarrow>
     (par = Some p \<or> (\<exists>k. m k = Some p)) \<and> (\<exists>k. m k = Some c)"
proof (induction m n par and m ns par rule: toc_links_toc_links_list.induct)
  case (1 m title path chs par)
  show ?case
  proof (cases "node_id m (TOCTreeNode title path chs)")
    case None
    with 1 show ?thesis by simp
  next
    case (Some i)
    then have mi: "m path = Some i"
      by (auto simp: node_id_def split: option.splits if_splits)
    from "1.prems" Some
    consider "par = Some p" "c = i" | "(p, c) \<in> set (toc_links_list m chs (Some i))"
      by (auto split: option.splits if_splits)
    then show ?thesis
    proof cases
      case 1
      then show ?thesis using mi by auto
    next
      case 2
      from "1.IH"(2)[OF Some 2] mi show ?thesis by auto
    qed
  qed
next
  case (2 m par)
  then show ?case by simp
next
  case (3 m node nodes par)
  then show ?case by auto
qed

lemma child_link:
  "C \<in> set ns \<Longrightarrow> node_id m C = Some c \<Longrightarrow> p \<noteq> [] \<Longrightarrow>
     (p, c) \<in> set (toc_links_list m ns (Some p))"
proof (induction ns)
  case Nil
  then show ?case by simp
next
  case (Cons n ns)
  show ?case
  proof (cases "C = n")
    case True
    obtain t path chs where n: "n = TOCTreeNode t path chs" by (cases n)
    then have "(p, c) \<in> set (toc_links m n (Some p))"
      using Cons.prems True by simp
    then show ?thesis by simp
  next
    case False
    with Cons show ?thesis by simp
  qed
qed

lemma pair_link:
  "(P, C) \<in> set (toc_pairs n) \<Longrightarrow> node_id m P = Some p \<Longrightarrow> node_id m C = Some c \<Longrightarrow>
     (p, c) \<in> set (toc_links m n par)"
  "(P, C) \<in> set (concat (map toc_pairs ns)) \<Longrightarrow> node_id m P = Some p \<Longrightarrow>
     node_id m C = Some c \<Longrightarrow> (p, c) \<in> set (toc_links_list m ns par)"
proof (induction m n par and m ns par rule: toc_links_toc_links_list.induct)
  case (1 m title path chs par)
  let ?n = "TOCTreeNode title path chs"
  from "1.prems"(1) consider "P = ?n" "C \<in> set chs" | "(P, C) \<in> set (concat (map toc_pairs chs))"
    by auto
  then show ?case
  proof cases
    case 1
    with "1.prems" have np: "node_id m ?n = Some p" by simp
    then have "p \<noteq> []" by (auto simp: node_id_def split: option.splits if_splits)
    from child_link[OF 1(2) "1.prems"(3) this] np show ?thesis by simp
  next
    case 2
    show ?thesis
    proof (cases "node_id m ?n")
      case None
      from "1.IH"(1)[OF None 2 "1.prems"(2,3)] None show ?thesis by simp
    next
      case (Some i)
      from "1.IH"(2)[OF Some 2 "1.prems"(2,3)] Some show ?thesis by simp
    qed
  qed
next
  case (2 m par)
  then show ?case by simp
next
  case (3 m node nodes par)
  then show ?case by auto
qed


subsection \<open>See-also edges\<close>

lemma add_see_also_link_frame:
  "map_option parent (add_see_also_link jp m page l g q) = map_option parent (g q)"
  "map_option children (add_see_also_link jp m page l g q) = map_option children (g q)"
  by (auto simp: add_see_also_link_def split: option.splits)

lemma add_see_also_link_no_self:
  "no_self_loop g \<Longrightarrow> no_self_loop (add_see_also_link jp m page l g)"
  by (auto simp: add_see_also_link_def no_self_loop_def split: option.splits if_splits)

lemma dom_add_see_also_link [simp]: "dom (add_see_also_link jp m page l g) = dom g"
  by (auto simp: add_see_also_link_def split: option.splits if_splits)

lemma fold_add_see_also_link:
  "map_option parent (fold (add_see_also_link jp m page) ls g q) = map_option parent (g q)"
  "map_option children (fold (add_see_also_link jp m page) ls g q) = map_option children (g q)"
  "no_self_loop g \<Longrightarrow> no_self_loop (fold (add_see_also_link jp m page) ls g)"
  by (induction ls arbitrary: g) (simp_all add: add_see_also_link_frame add_see_also_link_no_self)

lemma add_see_also_relationships_frame:
  "map_option parent (add_see_also_relationships jp m pages g q) = map_option parent (g q)"
  "map_option children (add_see_also_relationships jp m pages g q) = map_option children (g q)"
  "no_self_loop g \<Longrightarrow> no_self_loop (add_see_also_relationships jp m pages g)"
  unfolding add_see_also_relationships_def
  by (induction pages arbitrary: g) (simp_all add: fold_add_see_also_link)

lemma toc_phase:
  assumes "index_pages pages = (m, g0)"
  shows "process_toc_nodes m toc_nodes None g0
           = Inr (fold apply_link (toc_links_list m toc_nodes None) g0)"
  using index_pages_inv[OF assms] by (intro walk_refines(2)) auto

lemma build_graph_eq:
  assumes "index_pages pages = (m, g0)"
  shows "build_graph jp toc_nodes pages
           = Inr (add_see_also_relationships jp m pages
                    (fold apply_link (toc_links_list m toc_nodes None) g0))"
  by (simp add: build_graph_def assms toc_phase[OF assms])

text \<open>
  Claim C7. For every table of contents and every list of pages \<open>build_graph\<close>
  returns a graph (it raises no \<open>KeyError\<close>), and no page id of that graph occurs in
  its own \<open>see_also\<close> list.
\<close>

theorem build_graph_no_self_see_also:
  "\<exists>g. build_graph jp toc_nodes pages = Inr g
     \<and> (\<forall>P e. g P = Some e \<longrightarrow> P \<notin> set (see_also e))"
proof -
  obtain m g0 where ip: "index_pages pages = (m, g0)" by (cases "index_pages pages")
  let ?g1 = "fold apply_link (toc_links_list m toc_nodes None) g0"
  have "fresh_entries g0" using index_pages_inv[OF ip] by simp
  then have "no_self_loop g0" by (auto simp: fresh_entries_def no_self_loop_def)
  have "no_self_loop ?g1"
    unfolding no_self_loop_def
  proof (intro allI impI)
    fix q e assume "?g1 q = Some e"
    then have "map_option see_also (g0 q) = Some (see_also e)"
      using see_also_fold_apply_link[of "toc_links_list m toc_nodes None" g0 q] by simp
    then obtain e0 where "g0 q = Some e0" "see_also e0 = see_also e" by auto
    then show "q \<notin> set (see_also e)"
      using \<open>fresh_entries g0\<close> by (auto simp: fresh_entries_def)
  qed
  then have "no_self_loop (add_see_also_relationships jp m pages ?g1)"
    by (rule add_see_also_relationships_frame(3))
  then show ?thesis
    unfolding build_graph_eq[OF ip] no_self_loop_def by blast
qed

theorem build_graph_no_self_see_also_witness:
  "\<exists>e. graph_entry (build_graph posix_join_parent toc_two_parents pages_abc) ''A'' = Some e
     \<and> see_also e = [''B'', ''C''] \<and> ''A'' \<notin> set (see_also e)"
proof -
  let ?e = "\<lparr>parent = None, children = [''C''], see_also = [''B'', ''C'']\<rparr>"
  have ex: "graph_entry (build_graph posix_join_parent toc_two_parents pages_abc) ''A'' = Some ?e"
    by (simp add: graph_eval pages_abc_def toc_two_parents_def)
  from build_graph_no_self_see_also[of posix_join_parent toc_two_parents pages_abc]
  obtain g where g: "build_graph posix_join_parent toc_two_parents pages_abc = Inr g"
    "\<forall>P e. g P = Some e \<longrightarrow> P \<notin> set (see_also e)" by blast
  from ex g(1) have "g ''A'' = Some ?e" by (simp add: graph_entry_def)
  with g(2) have "''A'' \<notin> set (see_also ?e)" by blast
  with ex show ?thesis by simp
qed

text \<open>
  Claim C5, as amended. For every parent/child pair of TOC nodes whose paths resolve
  to the page ids \<open>p\<close> and \<open>c\<close>, the built graph lists \<open>c\<close> among the children of
  \<open>p\<close>. The parent of \<open>c\<close> is the parent of the last link into \<open>c\<close> that the walk
  makes; it is \<open>p\<close> when every link into \<open>c\<close> comes from \<open>p\<close>, as when the page
  is listed once.
\<close>

theorem build_graph_toc_pair:
  assumes "(P, C) \<in> set (concat (map toc_pairs toc_nodes))"
    and "node_id (fst (index_pages pages)) P = Some p"
    and "node_id (fst (index_pages pages)) C = Some c"
  shows "\<exists>g ep ec. build_graph jp toc_nodes pages = Inr g
     \<and> g p = Some ep \<and> c \<in> set (children ep)
     \<and> g c = Some ec
     \<and> parent ec = Some (fst (last (filter (\<lambda>l. snd l = c)
                       (toc_links_list (fst (index_pages pages)) toc_nodes None))))
     \<and> ((\<forall>l \<in> set (toc_links_list (fst (index_pages pages)) toc_nodes None).
            snd l = c \<longrightarrow> fst l = p) \<longrightarrow> parent ec = Some p)"
proof -
  obtain m g0 where ip: "index_pages pages = (m, g0)" by (cases "index_pages pages")
  let ?ls = "toc_links_list m toc_nodes None"
  let ?g1 = "fold apply_link ?ls g0"
  let ?g = "add_see_also_relationships jp m pages ?g1"
  have inv: "ids_have_entries m g0" using index_pages_inv[OF ip] by simp
  have mem: "(p, c) \<in> set ?ls"
    using pair_link(2)[OF assms(1), of m p c None] assms(2,3) ip by simp
  have ends: "\<forall>l \<in> set ?ls. fst l \<in> dom g0 \<and> snd l \<in> dom g0"
  proof
    fix l assume "l \<in> set ?ls"
    then have "(fst l, snd l) \<in> set ?ls" by simp
    from toc_links_ids(2)[OF this] inv show "fst l \<in> dom g0 \<and> snd l \<in> dom g0"
      unfolding ids_have_entries_def by blast
  qed
  with mem have pd: "p \<in> dom g0" and cd: "c \<in> dom g0" by auto
  from fold_apply_link_child[OF mem pd cd]
  obtain ep1 where ep1: "?g1 p = Some ep1" "c \<in> set (children ep1)" by blast
  have ne: "filter (\<lambda>l. snd l = c) ?ls \<noteq> []"
    using mem by (force simp: filter_empty_conv)
  from fold_apply_link_parent[OF ne ends]
  obtain ec1 where ec1: "?g1 c = Some ec1"
    "parent ec1 = Some (fst (last (filter (\<lambda>l. snd l = c) ?ls)))" by blast
  have "map_option children (?g p) = Some (children ep1)"
    using ep1 by (simp add: add_see_also_relationships_frame)
  then obtain ep where ep: "?g p = Some ep" "children ep = children ep1" by auto
  have "map_option parent (?g c) = Some (parent ec1)"
    using ec1 by (simp add: add_see_also_relationships_frame)
  then obtain ec where ec: "?g c = Some ec" "parent ec = parent ec1" by auto
  have "last (filter (\<lambda>l. snd l = c) ?ls) \<in> set (filter (\<lambda>l. snd l = c) ?ls)"
    using ne by (rule last_in_set)
  then have only: "(\<forall>l \<in> set ?ls. snd l = c \<longrightarrow> fst l = p) \<longrightarrow> parent ec = Some p"
    using ec ec1 by auto
  show ?thesis
    using build_graph_eq[OF ip, of jp toc_nodes] ep ep1 ec ec1 only ip by auto
qed

theorem build_graph_toc_pair_witness:
  "(TOCTreeNode ''Alpha'' ''a.html''
        [TOCTreeNode ''Gamma'' ''c.htm'' [],
         TOCTreeNode ''Folder'' [] [TOCTreeNode ''Beta'' ''b.html'' []]],
    TOCTreeNode ''Gamma'' ''c.htm'' []) \<in> set (concat (map toc_pairs toc_nested))
   \<and> node_id (fst (index_pages pages_abc)) (TOCTreeNode ''Alpha'' ''a.html''
        [TOCTreeNode ''Gamma'' ''c.htm'' [],
         TOCTreeNode ''Folder'' [] [TOCTreeNode ''Beta'' ''b.html'' []]]) = Some ''A''
   \<and> node_id (fst (index_pages pages_abc)) (TOCTreeNode ''Gamma'' ''c.htm'' []) = Some ''C''
   \<and> (\<exists>g ep ec. build_graph posix_join_parent toc_nested pages_abc = Inr g
        \<and> g ''A'' = Some ep \<and> ''C'' \<in> set (children ep)
        \<and> g ''C'' = Some ec \<and> parent ec = Some ''A'')"
proof -
  let ?A = "TOCTreeNode ''Alpha'' ''a.html''
        [TOCTreeNode ''Gamma'' ''c.htm'' [],
         TOCTreeNode ''Folder'' [] [TOCTreeNode ''Beta'' ''b.html'' []]]"
  let ?C = "TOCTreeNode ''Gamma'' ''c.htm'' []"
  have h1: "(?A, ?C) \<in> set (concat (map toc_pairs toc_nested))"
    by (simp add: toc_nested_def)
  have h2: "node_id (fst (index_pages pages_abc)) ?A = Some ''A''"
    by (simp add: graph_eval pages_abc_def)
  have h3: "node_id (fst (index_pages pages_abc)) ?C = Some ''C''"
    by (simp add: graph_eval pages_abc_def)
  have links: "toc_links_list (fst (index_pages pages_abc)) toc_nested None
                 = [(''A'', ''C''), (''A'', ''B'')]"
    by (simp add: graph_eval pages_abc_def toc_nested_def)
  from build_graph_toc_pair[OF h1 h2 h3, of posix_join_parent] links
  have "\<exists>g ep ec. build_graph posix_join_parent toc_nested pages_abc = Inr g
        \<and> g ''A'' = Some ep \<and> ''C'' \<in> set (children ep)
        \<and> g ''C'' = Some ec \<and> parent ec = Some ''A''"
    by simp
  with h1 h2 h3 show ?thesis by blast
qed

text \<open>
  The claim as stated fails where a page is listed under two parents: page C stands
  under A and under B, both pairs resolve, and the graph keeps B as the parent of C.
\<close>

theorem toc_pair_parent_counterexample:
  "(TOCTreeNode ''Alpha'' ''a.html'' [TOCTreeNode ''Gamma'' ''c.htm'' []],
    TOCTreeNode ''Gamma'' ''c.htm'' []) \<in> set (concat (map toc_pairs toc_two_parents))
   \<and> node_id (fst (index_pages pages_abc))
        (TOCTreeNode ''Alpha'' ''a.html'' [TOCTreeNode ''Gamma'' ''c.htm'' []]) = Some ''A''
   \<and> node_id (fst (index_pages pages_abc)) (TOCTreeNode ''Gamma'' ''c.htm'' []) = Some ''C''
   \<and> map_option parent
        (graph_entry (build_graph posix_join_parent toc_two_parents pages_abc) ''C'')
       = Some (Some ''B'')"
  by (simp add: graph_eval pages_abc_def toc_two_parents_def)

subsection \<open>Resolving link paths\<close>

lemma try_extensions_html:
  assumes "\<not> suffix ''.html'' link" and "m (link @ ''.html'') = Some i"
  shows "try_extensions jp m link cur [''.html'', ''.htm''] = Some i"
  using assms by simp

lemma try_extensions_htm:
  assumes "\<not> suffix ''.htm'' link" and "m (link @ ''.htm'') = Some i"
    and "suffix ''.html'' link
         \<or> (m (link @ ''.html'') = None \<and> m (jp cur (link @ ''.html'')) = None)"
  shows "try_extensions jp m link cur [''.html'', ''.htm''] = Some i"
  using assms by auto

lemma index_pages_map_of:
  "fst (index_pages pages) = map_of (rev (map (\<lambda>p. (pg_path p, pg_id p)) pages))"
  by (simp add: index_pages_def index_pages_fold_path_to_id)

lemma index_pages_SomeD:
  "fst (index_pages pages) k = Some v \<Longrightarrow> \<exists>pg \<in> set pages. pg_path pg = k \<and> pg_id pg = v"
  by (auto simp: index_pages_map_of dest!: map_of_SomeD)

lemma index_pages_None:
  "fst (index_pages pages) k = None \<longleftrightarrow> k \<notin> pg_path ` set pages"
  by (simp add: index_pages_map_of map_of_eq_None_iff image_image)

lemma try_extensions_SomeD:
  "try_extensions jp m link cur exts = Some i \<Longrightarrow>
     \<exists>ext \<in> set exts. m (link @ ext) = Some i \<or> m (jp cur (link @ ext)) = Some i"
  by (induction exts) (auto simp: Let_def split: option.splits if_splits)

lemma resolve_link_path_SomeD:
  assumes "resolve_link_path jp m link cur = Some i"
  shows "\<exists>k \<in> {link, jp cur link, link @ ''.html'', jp cur (link @ ''.html''),
                link @ ''.htm'', jp cur (link @ ''.htm'')}. m k = Some i"
  using assms try_extensions_SomeD[of jp m link cur "[''.html'', ''.htm'']" i]
  by (auto simp: resolve_link_path_def split: option.splits)

text \<open>
  Claim C6, as amended. Link path resolution is case-sensitive and exact: paths are
  compared character for character. With pairwise different page paths,

  \<^item> a reference that is a page's path resolves to that page's id;

  \<^item> a reference that does not itself end in \<open>.html\<close> and is a page's path without its
    \<open>.html\<close> extension resolves to that page's id when neither the reference nor the
    reference joined to the referring page's directory is a page path;

  \<^item> a reference that does not itself end in \<open>.htm\<close> and is a page's path without its
    \<open>.htm\<close> extension resolves to that page's id when neither the reference nor the
    reference joined to the referring page's directory is a page path and, moreover,
    the reference ends in \<open>.html\<close> or neither of the two \<open>.html\<close> candidates is a page
    path;

  \<^item> a reference resolves to an id only if a page with that id has a path that is
    equal, character for character, to one of six candidates: the reference, the
    reference joined to the referring page's directory, and each of the two with
    \<open>.html\<close> or with \<open>.htm\<close> appended;

  \<^item> a TOC path resolves to an id exactly when the path and the id are not empty and
    the path is equal, character for character, to the path of a page with that id:
    TOC paths have no extension fallback.
\<close>

theorem resolve_link_path_exact_or_extension:
  assumes "distinct (map pg_path pages)" and "page \<in> set pages"
  shows "resolve_link_path jp (fst (index_pages pages)) (pg_path page) cur = Some (pg_id page)
    \<and> (pg_path page = link @ ''.html'' \<and> \<not> suffix ''.html'' link
         \<and> link \<notin> pg_path ` set pages \<and> jp cur link \<notin> pg_path ` set pages
       \<longrightarrow> resolve_link_path jp (fst (index_pages pages)) link cur = Some (pg_id page))
    \<and> (pg_path page = link @ ''.htm'' \<and> \<not> suffix ''.htm'' link
         \<and> link \<notin> pg_path ` set pages \<and> jp cur link \<notin> pg_path ` set pages
         \<and> (suffix ''.html'' link
              \<or> (link @ ''.html'' \<notin> pg_path ` set pages
                  \<and> jp cur (link @ ''.html'') \<notin> pg_path ` set pages))
       \<longrightarrow> resolve_link_path jp (fst (index_pages pages)) link cur = Some (pg_id page))
    \<and> (\<forall>l i. resolve_link_path jp (fst (index_pages pages)) l cur = Some i
         \<longrightarrow> (\<exists>pg \<in> set pages. pg_id pg = i
                \<and> pg_path pg \<in> {l, jp cur l, l @ ''.html'', jp cur (l @ ''.html''),
                                 l @ ''.htm'', jp cur (l @ ''.htm'')}))
    \<and> (\<forall>i. node_id (fst (index_pages pages)) node = Some i
         \<longleftrightarrow> toc_path node \<noteq> [] \<and> i \<noteq> []
             \<and> (\<exists>pg \<in> set pages. pg_path pg = toc_path node \<and> pg_id pg = i))"
proof -
  let ?m = "fst (index_pages pages)"
  have p: "?m (pg_path page) = Some (pg_id page)"
    by (rule index_pages_path[OF assms])
  have iff: "?m k = Some v \<longleftrightarrow> (\<exists>pg \<in> set pages. pg_path pg = k \<and> pg_id pg = v)" for k v
    using index_pages_SomeD[of pages k v] index_pages_path[OF assms(1)] by auto
  have a: "resolve_link_path jp ?m (pg_path page) cur = Some (pg_id page)"
    by (simp add: resolve_link_path_def p)
  have b: "resolve_link_path jp ?m link cur = Some (pg_id page)"
    if "pg_path page = link @ ''.html''" "\<not> suffix ''.html'' link"
       "link \<notin> pg_path ` set pages" "jp cur link \<notin> pg_path ` set pages"
    using that p try_extensions_html[of link ?m "pg_id page" jp cur]
    by (simp add: resolve_link_path_def index_pages_None[symmetric])
  have c: "resolve_link_path jp ?m link cur = Some (pg_id page)"
    if "pg_path page = link @ ''.htm''" "\<not> suffix ''.htm'' link"
       "link \<notin> pg_path ` set pages" "jp cur link \<notin> pg_path ` set pages"
       "suffix ''.html'' link
          \<or> (link @ ''.html'' \<notin> pg_path ` set pages
              \<and> jp cur (link @ ''.html'') \<notin> pg_path ` set pages)"
    using that p try_extensions_htm[of link ?m "pg_id page" jp cur]
    by (simp add: resolve_link_path_def index_pages_None[symmetric])
  have d: "\<exists>pg \<in> set pages. pg_id pg = i
                \<and> pg_path pg \<in> {l, jp cur l, l @ ''.html'', jp cur (l @ ''.html''),
                                 l @ ''.htm'', jp cur (l @ ''.htm'')}"
    if "resolve_link_path jp ?m l cur = Some i" for l i
  proof -
    from resolve_link_path_SomeD[OF that]
    obtain k where k: "k \<in> {l, jp cur l, l @ ''.html'', jp cur (l @ ''.html''),
                l @ ''.htm'', jp cur (l @ ''.htm'')}" "?m k = Some i" by blast
    from index_pages_SomeD[OF k(2)] obtain pg where "pg \<in> set pages" "pg_path pg = k" "pg_id pg = i"
      by blast
    with k(1) show ?thesis by blast
  qed
  have e: "node_id ?m node = Some i
         \<longleftrightarrow> toc_path node \<noteq> [] \<and> i \<noteq> []
             \<and> (\<exists>pg \<in> set pages. pg_path pg = toc_path node \<and> pg_id pg = i)" for i
    unfolding iff[symmetric] by (auto simp: node_id_def split: option.splits)
  show ?thesis using a b c d e by blast
qed


theorem resolve_link_path_exact_or_extension_witness:
  "distinct (map pg_path pages_abc) \<and> mk_page ''C'' ''c.htm'' [''Arc'', ''A.html''] \<in> set pages_abc
   \<and> pg_path (mk_page ''C'' ''c.htm'' [''Arc'', ''A.html'']) = ''c'' @ ''.htm''
   \<and> \<not> suffix ''.htm'' ''c''
   \<and> ''c'' \<notin> pg_path ` set pages_abc
   \<and> posix_join_parent ''a.html'' ''c'' \<notin> pg_path ` set pages_abc
   \<and> ''c'' @ ''.html'' \<notin> pg_path ` set pages_abc
   \<and> posix_join_parent ''a.html'' (''c'' @ ''.html'') \<notin> pg_path ` set pages_abc
   \<and> resolve_link_path posix_join_parent (fst (index_pages pages_abc)) ''c'' ''a.html''
        = Some ''C''
   \<and> resolve_link_path posix_join_parent (fst (index_pages pages_abc)) ''c.htm'' ''a.html''
        = Some ''C''
   \<and> node_id (fst (index_pages pages_abc)) (TOCTreeNode ''Gamma'' ''c.htm'' []) = Some ''C''"
proof -
  let ?pg = "mk_page ''C'' ''c.htm'' [''Arc'', ''A.html'']"
  let ?node = "TOCTreeNode ''Gamma'' ''c.htm'' []"
  have h1: "distinct (map pg_path pages_abc)" and h2: "?pg \<in> set pages_abc"
    by (simp_all add: pages_abc_def mk_page_def)
  have h: "pg_path ?pg = ''c'' @ ''.htm''" "\<not> suffix ''.htm'' ''c''"
    "''c'' \<notin> pg_path ` set pages_abc"
    "posix_join_parent ''a.html'' ''c'' \<notin> pg_path ` set pages_abc"
    "''c'' @ ''.html'' \<notin> pg_path ` set pages_abc"
    "posix_join_parent ''a.html'' (''c'' @ ''.html'') \<notin> pg_path ` set pages_abc"
    by (simp_all add: graph_eval pages_abc_def)
  have n: "toc_path ?node \<noteq> []" "pg_id ?pg \<noteq> []" "pg_path ?pg = toc_path ?node"
    by (simp_all add: mk_page_def)
  from resolve_link_path_exact_or_extension[OF h1 h2, of posix_join_parent "''a.html''" "''c''" ?node]
    h h2 n
  have "resolve_link_path posix_join_parent (fst (index_pages pages_abc)) ''c'' ''a.html''
        = Some (pg_id ?pg)"
    and "resolve_link_path posix_join_parent (fst (index_pages pages_abc)) (pg_path ?pg) ''a.html''
        = Some (pg_id ?pg)"
    and "node_id (fst (index_pages pages_abc)) ?node = Some (pg_id ?pg)"
    by blast+
  then show ?thesis using h1 h2 h by (simp add: mk_page_def)
qed

text \<open>
  The claim as stated fails: \<open>A.html\<close> differs from the path of page A only in letter
  case and resolves to no page, as a reference and as a TOC path; the TOC path \<open>a\<close>
  lacks only the extension and does not resolve either.
\<close>

theorem resolve_link_path_case_counterexample:
  "pg_path (mk_page ''A'' ''a.html'' [''b.html'', ''a.html'', ''c'']) = lower ''A.html''
   \<and> mk_page ''A'' ''a.html'' [''b.html'', ''a.html'', ''c''] \<in> set pages_abc
   \<and> resolve_link_path posix_join_parent (fst (index_pages pages_abc)) ''A.html'' ''c.htm''
        = None
   \<and> node_id (fst (index_pages pages_abc)) (TOCTreeNode ''Alpha'' ''A.html'' []) = None
   \<and> node_id (fst (index_pages pages_abc)) (TOCTreeNode ''Alpha'' ''a'' []) = None"
proof -
  have "lower ''A.html'' = ''a.html''"
    by code_simp
  then show ?thesis
    by (simp add: graph_eval pages_abc_def)
qed

section \<open>The chunker\<close>

lemma buffers_nonempty [simp]: "buffers c cur ts \<noteq> []"
  by (induction ts arbitrary: cur) auto

lemma buffers_hd_prefix: "prefix cur (hd (buffers c cur ts))"
proof (induction ts arbitrary: cur)
  case Nil
  then show ?case by simp
next
  case (Cons t ts)
  show ?case
  proof (cases "cur \<noteq> [] \<and> estimate_tokens (cur @ '' '' @ t) > target_tokens c")
    case True
    then show ?thesis by simp
  next
    case False
    let ?n = "if cur \<noteq> [] then cur @ '' '' @ t else t"
    have "prefix cur ?n" by simp
    also have "prefix ?n (hd (buffers c ?n ts))" by (rule Cons.IH)
    finally show ?thesis using False by auto
  qed
qed

lemma buffers_seeded:
  "successively (\<lambda>b b'. prefix (get_overlap_text c b) b') (buffers c cur ts)"
proof (induction ts arbitrary: cur)
  case Nil
  then show ?case by simp
next
  case (Cons t ts)
  show ?case
  proof (cases "cur \<noteq> [] \<and> estimate_tokens (cur @ '' '' @ t) > target_tokens c")
    case True
    let ?n = "if get_overlap_text c cur \<noteq> [] then get_overlap_text c cur @ '' '' @ t else t"
    have "prefix (get_overlap_text c cur) ?n" by simp
    also have "prefix ?n (hd (buffers c ?n ts))" by (rule buffers_hd_prefix)
    finally have "prefix (get_overlap_text c cur) (hd (buffers c ?n ts))" .
    moreover have "successively (\<lambda>b b'. prefix (get_overlap_text c b) b') (buffers c ?n ts)"
      by (rule Cons.IH)
    ultimately have "successively (\<lambda>b b'. prefix (get_overlap_text c b) b') (cur # buffers c ?n ts)"
      by (cases "buffers c ?n ts") auto
    then show ?thesis using True by simp
  next
    case False
    then show ?thesis using Cons.IH by auto
  qed
qed

lemma successively_nth:
  "successively P xs \<Longrightarrow> Suc j < length xs \<Longrightarrow> P (xs ! j) (xs ! Suc j)"
proof (induction xs arbitrary: j)
  case Nil
  then show ?case by simp
next
  case (Cons x xs)
  from Cons.prems have a: "xs \<noteq> []" "P x (hd xs)" "successively P xs"
    by (auto simp: successively_Cons)
  show ?case
  proof (cases j)
    case 0
    then show ?thesis using a by (simp add: hd_conv_nth)
  next
    case (Suc k)
    then show ?thesis using Cons.IH[OF a(3), of k] Cons.prems(2) by simp
  qed
qed

lemma content_emit_chunk:
  "map ck_content (chunks (emit_chunk ex page st)) = map ck_content (chunks st) @ [current_chunk_text st]"
  "current_chunk_text (emit_chunk ex page st) = current_chunk_text st"
  by (simp_all add: emit_chunk_def create_chunk_def Let_def split: prod.splits)

lemma chunk_step_text:
  "current_chunk_text (chunk_step c ex page st s) =
     (if current_chunk_text st \<noteq> []
         \<and> estimate_tokens (current_chunk_text st @ '' '' @ sec_text s) > target_tokens c
      then (if get_overlap_text c (current_chunk_text st) \<noteq> []
            then get_overlap_text c (current_chunk_text st) @ '' '' @ sec_text s
            else sec_text s)
      else if current_chunk_text st \<noteq> [] then current_chunk_text st @ '' '' @ sec_text s
      else sec_text s)"
  by (simp add: chunk_step_def Let_def)

lemma chunk_step_chunks:
  "map ck_content (chunks (chunk_step c ex page st s)) =
     map ck_content (chunks st) @
     (if current_chunk_text st \<noteq> []
         \<and> estimate_tokens (current_chunk_text st @ '' '' @ sec_text s) > target_tokens c
         \<and> estimate_tokens (current_chunk_text st) \<ge> min_chunk_tokens c
      then [current_chunk_text st] else [])"
  by (simp add: chunk_step_def Let_def content_emit_chunk)

lemma loop_contents:
  "map ck_content (chunks (finish c ex page
       (fold (\<lambda>s st. chunk_step c ex page st s) secs st)))
   = map ck_content (chunks st)
     @ filter (emitted c) (buffers c (current_chunk_text st) (map sec_text secs))"
proof (induction secs arbitrary: st)
  case Nil
  then show ?case by (simp add: finish_def emitted_def content_emit_chunk)
next
  case (Cons s secs)
  show ?case
    by (simp add: Cons.IH chunk_step_text chunk_step_chunks emitted_def)
qed

lemma chunk_page_contents:
  "map ck_content (fst (chunk_page c ex page hs ps))
     = filter (emitted c) (buffers c [] (page_texts hs ps))"
  by (simp add: chunk_page_def chunk_by_paragraphs_def chunk_sections_def Let_def
        loop_contents initial_state_def page_texts_def)

lemma filter_nth_count:
  "j < length xs \<Longrightarrow> P (xs ! j) \<Longrightarrow> filter P xs ! length (filter P (take j xs)) = xs ! j"
proof (induction xs arbitrary: j)
  case Nil
  then show ?case by simp
next
  case (Cons x xs)
  then show ?case by (cases j) auto
qed

lemma filter_count_less:
  "j < length xs \<Longrightarrow> P (xs ! j) \<Longrightarrow> length (filter P (take j xs)) < length (filter P xs)"
proof (induction xs arbitrary: j)
  case Nil
  then show ?case by simp
next
  case (Cons x xs)
  then show ?case by (cases j) auto
qed


text \<open>
  Claim C3, as amended. Let \<open>bs\<close> be the buffers of a page's run and \<open>cs\<close> the chunks
  that \<open>chunk_page\<close> returns: the contents of \<open>cs\<close> are the emitted buffers of \<open>bs\<close>,
  in order. When two consecutive buffers \<open>bs ! j\<close> and \<open>bs ! Suc j\<close> are both
  emitted, they are the adjacent chunks \<open>i\<close> and \<open>i + 1\<close> (\<open>i\<close> counts the emitted
  buffers before \<open>j\<close>), and the overlap seed taken from chunk \<open>i\<close> when its buffer was
  closed stands at the start of the content of chunk \<open>i + 1\<close>.
\<close>

theorem chunk_page_overlap_seed:
  assumes "bs = buffers c [] (page_texts hs ps)"
    and "cs = fst (chunk_page c ex page hs ps)"
    and "i = length (filter (emitted c) (take j bs))"
    and "Suc j < length bs" and "emitted c (bs ! j)" and "emitted c (bs ! Suc j)"
  shows "map ck_content cs = filter (emitted c) bs
     \<and> Suc i < length cs
     \<and> ck_content (cs ! i) = bs ! j \<and> ck_content (cs ! Suc i) = bs ! Suc j
     \<and> prefix (get_overlap_text c (ck_content (cs ! i))) (ck_content (cs ! Suc i))"
proof -
  let ?P = "emitted c"
  have contents: "map ck_content cs = filter ?P bs"
    by (simp add: assms(1,2) chunk_page_contents)
  have j: "j < length bs" using assms(4) by simp
  have si: "Suc i = length (filter ?P (take (Suc j) bs))"
    using assms(3,5) j by (simp add: take_Suc_conv_app_nth)
  have "Suc i < length (filter ?P bs)"
    unfolding si using filter_count_less[of "Suc j" bs "emitted c"] assms(4,6) by simp
  then have len: "Suc i < length cs"
    using contents by (metis length_map)
  have "filter ?P bs ! i = bs ! j"
    unfolding assms(3) using filter_nth_count[of j bs "emitted c"] j assms(5) by simp
  then have ci: "ck_content (cs ! i) = bs ! j"
    using contents len by (metis Suc_lessD nth_map)
  have "filter ?P bs ! Suc i = bs ! Suc j"
    unfolding si using filter_nth_count[of "Suc j" bs "emitted c"] assms(4,6) by simp
  then have cj: "ck_content (cs ! Suc i) = bs ! Suc j"
    using contents len by (metis nth_map)
  have "prefix (get_overlap_text c (bs ! j)) (bs ! Suc j)"
    using successively_nth[OF buffers_seeded assms(4)[unfolded assms(1)]]
    by (simp add: assms(1))
  then show ?thesis using contents len ci cj by simp
qed

text \<open>The definitions that a run of the chunker on a concrete input unfolds.\<close>

lemmas chunk_eval = chunk_page_def chunk_by_paragraphs_def chunk_sections_def chunk_step_def
  finish_def emit_chunk_def create_chunk_def initial_state_def get_overlap_text_def
  estimate_tokens_def split_def is_space_def slice_from_def slice_bound_def
  small_chunker_def no_anchors_def two_sections_def three_sections_def page_texts_def
  emitted_def mk_page_def Let_def

lemma two_sections_buffers: "buffers small_chunker [] (page_texts two_sections [])
    = [''aaaaaaaaaaaaaaaaaaaaaa b'', ''b dddddddddddddddddddddddd'']"
  by (simp add: chunk_eval)

text \<open>
  The claim as stated fails when a buffer below \<open>min_chunk_tokens\<close> is closed between
  two chunks: the first chunk ends in \<open>b\<close>, which seeds the buffer \<open>b c\<close>; that buffer
  is closed below the minimum and dropped, and the second chunk starts with its seed
  \<open>c\<close>, not with \<open>b\<close>.
\<close>

theorem chunk_page_overlap_counterexample:
  "map ck_content (fst (chunk_page small_chunker no_anchors (mk_page ''P'' ''p.html'' [])
       three_sections []))
     = [''aaaaaaaaaaaaaaaaaaaaaa b'', ''c dddddddddddddddddddddddd'']
   \<and> get_overlap_text small_chunker ''aaaaaaaaaaaaaaaaaaaaaa b'' = ''b''
   \<and> \<not> prefix ''b'' ''c dddddddddddddddddddddddd''"
  by (simp add: chunk_eval)

theorem chunk_page_overlap_seed_witness:
  "Suc 0 < length (buffers small_chunker [] (page_texts two_sections []))
   \<and> emitted small_chunker (buffers small_chunker [] (page_texts two_sections []) ! 0)
   \<and> emitted small_chunker (buffers small_chunker [] (page_texts two_sections []) ! Suc 0)
   \<and> get_overlap_text small_chunker ''aaaaaaaaaaaaaaaaaaaaaa b'' = ''b''
   \<and> map ck_content (fst (chunk_page small_chunker no_anchors (mk_page ''P'' ''p.html'' [])
         two_sections []))
       = [''aaaaaaaaaaaaaaaaaaaaaa b'', ''b dddddddddddddddddddddddd'']
   \<and> prefix
        (get_overlap_text small_chunker
          (ck_content (fst (chunk_page small_chunker no_anchors (mk_page ''P'' ''p.html'' [])
             two_sections []) ! 0)))
        (ck_content (fst (chunk_page small_chunker no_anchors (mk_page ''P'' ''p.html'' [])
             two_sections []) ! Suc 0))"
proof -
  let ?bs = "buffers small_chunker [] (page_texts two_sections [])"
  let ?cs = "fst (chunk_page small_chunker no_anchors (mk_page ''P'' ''p.html'' []) two_sections [])"
  have h: "Suc 0 < length ?bs" "emitted small_chunker (?bs ! 0)"
    "emitted small_chunker (?bs ! Suc 0)"
    by (simp_all add: two_sections_buffers) (simp_all add: emitted_def estimate_tokens_def small_chunker_def)
  have i: "0 = length (filter (emitted small_chunker) (take 0 ?bs))" by simp
  have ov: "get_overlap_text small_chunker ''aaaaaaaaaaaaaaaaaaaaaa b'' = ''b''"
    by (simp add: chunk_eval)
  from chunk_page_overlap_seed[OF refl refl i h, of no_anchors "mk_page ''P'' ''p.html'' []"]
  have "map ck_content ?cs = filter (emitted small_chunker) ?bs"
    and "prefix (get_overlap_text small_chunker (ck_content (?cs ! 0))) (ck_content (?cs ! Suc 0))"
    by blast+
  moreover have "filter (emitted small_chunker) ?bs
       = [''aaaaaaaaaaaaaaaaaaaaaa b'', ''b dddddddddddddddddddddddd'']"
    by (simp add: two_sections_buffers) (simp add: emitted_def estimate_tokens_def small_chunker_def)
  ultimately show ?thesis using h ov by simp
qed

subsection \<open>A buffer with too few words to seed the next one\<close>

text \<open>One round of the loop that closes a buffer with at most \<open>overlap_tokens // 4\<close> words.\<close>

lemma chunk_step_short_buffer:
  assumes "int (length (split (current_chunk_text st))) \<le> overlap_tokens c div 4"
    and "current_chunk_text st \<noteq> []"
    and "estimate_tokens (current_chunk_text st @ '' '' @ sec_text s) > target_tokens c"
  shows "get_overlap_text c (current_chunk_text st) = []
     \<and> current_chunk_text (chunk_step c ex page st s) = sec_text s
     \<and> prefix (sec_text s)
          (hd (buffers c (current_chunk_text (chunk_step c ex page st s)) rest))"
proof -
  have ov: "get_overlap_text c (current_chunk_text st) = []"
    using assms(1) by (simp add: get_overlap_text_def Let_def)
  have nt: "current_chunk_text (chunk_step c ex page st s) = sec_text s"
    using assms(2,3) ov by (simp add: chunk_step_text)
  show ?thesis
    using ov nt buffers_hd_prefix[of "sec_text s" c rest] by simp
qed

lemma length_buffers: "length (buffers c cur ts) = Suc (length (triggers c cur ts))"
  by (induction ts arbitrary: cur) auto

lemma triggers_subset: "set (triggers c cur ts) \<subseteq> set ts"
  by (induction ts arbitrary: cur) auto

lemma accumulate_Cons:
  "accumulate cur (t # ts) = accumulate (if cur \<noteq> [] then cur @ '' '' @ t else t) ts"
  by (simp add: accumulate_def)

lemma accumulate_prefix: "prefix cur (accumulate cur ts)"
proof (induction ts arbitrary: cur)
  case Nil
  then show ?case by (simp add: accumulate_def)
next
  case (Cons t ts)
  let ?n = "if cur \<noteq> [] then cur @ '' '' @ t else t"
  have "prefix cur ?n" by simp
  also have "prefix ?n (accumulate ?n ts)" by (rule Cons.IH)
  finally show ?case by (simp only: accumulate_Cons)
qed

lemma buffers_hd_accumulate:
  "\<exists>ys zs. ts = ys @ zs \<and> hd (buffers c cur ts) = accumulate cur ys"
proof (induction ts arbitrary: cur)
  case Nil
  then show ?case by (simp add: accumulate_def)
next
  case (Cons t ts)
  show ?case
  proof (cases "cur \<noteq> [] \<and> estimate_tokens (cur @ '' '' @ t) > target_tokens c")
    case True
    then have "t # ts = [] @ (t # ts) \<and> hd (buffers c cur (t # ts)) = accumulate cur []"
      by (simp add: accumulate_def)
    then show ?thesis by blast
  next
    case False
    let ?n = "if cur \<noteq> [] then cur @ '' '' @ t else t"
    from Cons.IH[of ?n] obtain ys zs
      where "ts = ys @ zs" "hd (buffers c ?n ts) = accumulate ?n ys" by blast
    then have "t # ts = (t # ys) @ zs \<and> hd (buffers c cur (t # ts)) = accumulate cur (t # ys)"
      using False by (auto simp: accumulate_Cons)
    then show ?thesis by blast
  qed
qed

lemma buffers_next:
  assumes "Suc j < length (buffers c cur ts)"
  shows "\<exists>xs ys zs. ts = xs @ (triggers c cur ts ! j) # ys @ zs
           \<and> buffers c cur ts ! Suc j
               = accumulate (if get_overlap_text c (buffers c cur ts ! j) \<noteq> []
                             then get_overlap_text c (buffers c cur ts ! j) @ '' ''
                                    @ triggers c cur ts ! j
                             else triggers c cur ts ! j) ys"
  using assms
proof (induction ts arbitrary: cur j)
  case Nil
  then show ?case by simp
next
  case (Cons t ts)
  show ?case
  proof (cases "cur \<noteq> [] \<and> estimate_tokens (cur @ '' '' @ t) > target_tokens c")
    case True
    let ?n = "if get_overlap_text c cur \<noteq> [] then get_overlap_text c cur @ '' '' @ t else t"
    have b: "buffers c cur (t # ts) = cur # buffers c ?n ts"
      and g: "triggers c cur (t # ts) = t # triggers c ?n ts"
      using True by simp_all
    show ?thesis
    proof (cases j)
      case 0
      from buffers_hd_accumulate[of ts c ?n] obtain ys zs
        where "ts = ys @ zs" "hd (buffers c ?n ts) = accumulate ?n ys" by blast
      then have "t # ts = [] @ (triggers c cur (t # ts) ! j) # ys @ zs
           \<and> buffers c cur (t # ts) ! Suc j
               = accumulate (if get_overlap_text c (buffers c cur (t # ts) ! j) \<noteq> []
                             then get_overlap_text c (buffers c cur (t # ts) ! j) @ '' ''
                                    @ triggers c cur (t # ts) ! j
                             else triggers c cur (t # ts) ! j) ys"
        unfolding b g 0 by (simp add: hd_conv_nth)
      then show ?thesis by blast
    next
      case (Suc k)
      have "Suc k < length (buffers c ?n ts)"
        using Cons.prems unfolding b Suc by simp
      from Cons.IH[OF this] obtain xs ys zs
        where "ts = xs @ (triggers c ?n ts ! k) # ys @ zs"
          and "buffers c ?n ts ! Suc k
               = accumulate (if get_overlap_text c (buffers c ?n ts ! k) \<noteq> []
                             then get_overlap_text c (buffers c ?n ts ! k) @ '' ''
                                    @ triggers c ?n ts ! k
                             else triggers c ?n ts ! k) ys"
        by blast
      then have "t # ts = (t # xs) @ (triggers c cur (t # ts) ! j) # ys @ zs
           \<and> buffers c cur (t # ts) ! Suc j
               = accumulate (if get_overlap_text c (buffers c cur (t # ts) ! j) \<noteq> []
                             then get_overlap_text c (buffers c cur (t # ts) ! j) @ '' ''
                                    @ triggers c cur (t # ts) ! j
                             else triggers c cur (t # ts) ! j) ys"
        unfolding b g Suc by simp
      then show ?thesis by blast
    qed
  next
    case False
    let ?n = "if cur \<noteq> [] then cur @ '' '' @ t else t"
    have b: "buffers c cur (t # ts) = buffers c ?n ts"
      and g: "triggers c cur (t # ts) = triggers c ?n ts"
      using False by auto
    have "Suc j < length (buffers c ?n ts)"
      using Cons.prems unfolding b .
    from Cons.IH[OF this] obtain xs ys zs
      where "ts = xs @ (triggers c ?n ts ! j) # ys @ zs"
        and "buffers c ?n ts ! Suc j
               = accumulate (if get_overlap_text c (buffers c ?n ts ! j) \<noteq> []
                             then get_overlap_text c (buffers c ?n ts ! j) @ '' ''
                                    @ triggers c ?n ts ! j
                             else triggers c ?n ts ! j) ys"
      by blast
    then have "t # ts = (t # xs) @ (triggers c cur (t # ts) ! j) # ys @ zs
           \<and> buffers c cur (t # ts) ! Suc j
               = accumulate (if get_overlap_text c (buffers c cur (t # ts) ! j) \<noteq> []
                             then get_overlap_text c (buffers c cur (t # ts) ! j) @ '' ''
                                    @ triggers c cur (t # ts) ! j
                             else triggers c cur (t # ts) ! j) ys"
      unfolding b g by simp
    then show ?thesis by blast
  qed
qed

lemma short_buffer_overlap:
  "int (length (split text)) \<le> overlap_tokens c div 4 \<Longrightarrow> get_overlap_text c text = []"
  by (simp add: get_overlap_text_def Let_def)

text \<open>
  Claim C10, as amended. Let \<open>bs\<close> be the buffers of a page's run, \<open>ts\<close> the texts of
  the sections that closed them, and \<open>cs\<close> the chunks that \<open>chunk_page\<close> returns. For
  every closed buffer \<open>bs ! j\<close> whose whitespace-delimited word count is at most
  \<open>overlap_tokens // 4\<close>, the computed overlap seed is the empty string, and the
  buffer opened next, \<open>bs ! Suc j\<close>, begins directly with the triggering section's
  text \<open>ts ! j\<close>: it is that text with texts of the sections that follow it on the
  page appended, so it holds nothing carried over from the closed buffer. When both
  buffers are emitted (each reaches \<open>min_chunk_tokens\<close>), they are the adjacent
  chunks \<open>i\<close> and \<open>i + 1\<close> of the page (\<open>i\<close> counts the emitted buffers before \<open>j\<close>),
  the seed computed from chunk \<open>i\<close> is empty and chunk \<open>i + 1\<close> begins directly with
  the triggering section's text.
\<close>

theorem short_buffer_leaves_no_overlap:
  assumes "bs = buffers c [] (page_texts hs ps)"
    and "ts = triggers c [] (page_texts hs ps)"
    and "cs = fst (chunk_page c ex page hs ps)"
    and "i = length (filter (emitted c) (take j bs))"
    and "Suc j < length bs"
    and "int (length (split (bs ! j))) \<le> overlap_tokens c div 4"
  shows "length bs = Suc (length ts)
     \<and> get_overlap_text c (bs ! j) = []
     \<and> prefix (ts ! j) (bs ! Suc j)
     \<and> (\<exists>xs ys zs. page_texts hs ps = xs @ (ts ! j) # ys @ zs
            \<and> bs ! Suc j = accumulate (ts ! j) ys)
     \<and> (emitted c (bs ! j) \<and> emitted c (bs ! Suc j)
        \<longrightarrow> Suc i < length cs
            \<and> ck_content (cs ! i) = bs ! j \<and> ck_content (cs ! Suc i) = bs ! Suc j
            \<and> get_overlap_text c (ck_content (cs ! i)) = []
            \<and> prefix (ts ! j) (ck_content (cs ! Suc i)))"
proof -
  let ?P = "emitted c"
  have ov: "get_overlap_text c (bs ! j) = []"
    by (rule short_buffer_overlap[OF assms(6)])
  from buffers_next[OF assms(5)[unfolded assms(1)]] ov
  obtain xs ys zs where nx: "page_texts hs ps = xs @ (ts ! j) # ys @ zs"
    "bs ! Suc j = accumulate (ts ! j) ys"
    unfolding assms(1)[symmetric] assms(2)[symmetric] by auto
  have pre: "prefix (ts ! j) (bs ! Suc j)"
    unfolding nx(2) by (rule accumulate_prefix)
  have ex: "\<exists>xs ys zs. page_texts hs ps = xs @ (ts ! j) # ys @ zs
            \<and> bs ! Suc j = accumulate (ts ! j) ys"
    using nx by blast
  have ch: "Suc i < length cs
            \<and> ck_content (cs ! i) = bs ! j \<and> ck_content (cs ! Suc i) = bs ! Suc j
            \<and> get_overlap_text c (ck_content (cs ! i)) = []
            \<and> prefix (ts ! j) (ck_content (cs ! Suc i))"
    if e: "emitted c (bs ! j)" "emitted c (bs ! Suc j)"
  proof -
    have contents: "map ck_content cs = filter ?P bs"
      by (simp add: assms(1,3) chunk_page_contents)
    have j: "j < length bs" using assms(5) by simp
    have si: "Suc i = length (filter ?P (take (Suc j) bs))"
      using assms(4) e(1) j by (simp add: take_Suc_conv_app_nth)
    have "Suc i < length (filter ?P bs)"
      unfolding si using filter_count_less[of "Suc j" bs "emitted c"] assms(5) e(2) by simp
    then have len: "Suc i < length cs"
      using contents by (metis length_map)
    have "filter ?P bs ! i = bs ! j"
      unfolding assms(4) using filter_nth_count[of j bs "emitted c"] j e(1) by simp
    then have ci: "ck_content (cs ! i) = bs ! j"
      using contents len by (metis Suc_lessD nth_map)
    have "filter ?P bs ! Suc i = bs ! Suc j"
      unfolding si using filter_nth_count[of "Suc j" bs "emitted c"] assms(5) e(2) by simp
    then have cj: "ck_content (cs ! Suc i) = bs ! Suc j"
      using contents len by (metis nth_map)
    show ?thesis using len ci cj ov pre by simp
  qed
  have ln: "length bs = Suc (length ts)"
    by (simp add: assms(1,2) length_buffers)
  show ?thesis using ln ov pre ex ch by blast
qed

lemmas wide_eval = chunk_eval wide_chunker_def accumulate_def

lemma wide_two_buffers: "buffers wide_chunker [] (page_texts two_sections [])
    = [''aaaaaaaaaaaaaaaaaaaaaa b'', ''dddddddddddddddddddddddd'']"
  by (simp add: wide_eval)

lemma wide_two_triggers: "triggers wide_chunker [] (page_texts two_sections [])
    = [''dddddddddddddddddddddddd'']"
  by (simp add: wide_eval)

theorem short_buffer_leaves_no_overlap_witness:
  "Suc 0 < length (buffers wide_chunker [] (page_texts two_sections []))
   \<and> int (length (split (buffers wide_chunker [] (page_texts two_sections []) ! 0)))
        \<le> overlap_tokens wide_chunker div 4
   \<and> emitted wide_chunker (buffers wide_chunker [] (page_texts two_sections []) ! 0)
   \<and> emitted wide_chunker (buffers wide_chunker [] (page_texts two_sections []) ! Suc 0)
   \<and> triggers wide_chunker [] (page_texts two_sections []) ! 0 = ''dddddddddddddddddddddddd''
   \<and> get_overlap_text wide_chunker
        (ck_content (fst (chunk_page wide_chunker no_anchors (mk_page ''P'' ''p.html'' [])
           two_sections []) ! 0)) = []
   \<and> prefix ''dddddddddddddddddddddddd''
        (ck_content (fst (chunk_page wide_chunker no_anchors (mk_page ''P'' ''p.html'' [])
           two_sections []) ! Suc 0))"
proof -
  let ?bs = "buffers wide_chunker [] (page_texts two_sections [])"
  let ?ts = "triggers wide_chunker [] (page_texts two_sections [])"
  let ?cs = "fst (chunk_page wide_chunker no_anchors (mk_page ''P'' ''p.html'' []) two_sections [])"
  have h: "Suc 0 < length ?bs"
    "int (length (split (?bs ! 0))) \<le> overlap_tokens wide_chunker div 4"
    by (simp_all add: wide_two_buffers)
       (simp_all add: split_def is_space_def wide_chunker_def small_chunker_def)
  have e: "emitted wide_chunker (?bs ! 0)" "emitted wide_chunker (?bs ! Suc 0)"
    by (simp_all add: wide_two_buffers)
       (simp_all add: emitted_def estimate_tokens_def wide_chunker_def small_chunker_def)
  have i: "0 = length (filter (emitted wide_chunker) (take 0 ?bs))" by simp
  have t: "?ts ! 0 = ''dddddddddddddddddddddddd''"
    by (simp add: wide_two_triggers)
  from short_buffer_leaves_no_overlap[OF refl refl refl i h,
      of no_anchors "mk_page ''P'' ''p.html'' []"] e
  have "get_overlap_text wide_chunker (ck_content (?cs ! 0)) = []"
    and "prefix (?ts ! 0) (ck_content (?cs ! Suc 0))"
    by blast+
  then show ?thesis using h e t by simp
qed

text \<open>
  The claim as stated fails when the buffer opened next is closed below
  \<open>min_chunk_tokens\<close>: with a target of 5, an overlap of 8 and a minimum of 3 tokens
  the first buffer has two words and leaves no seed, the section \<open>c\<close> that closed it
  opens a buffer that is dropped, and the next chunk of the page begins with the
  following section's text, not with \<open>c\<close>.
\<close>

theorem short_buffer_next_chunk_counterexample:
  "buffers wide_chunker [] (page_texts three_sections [])
     = [''aaaaaaaaaaaaaaaaaaaaaa b'', ''c'', ''dddddddddddddddddddddddd'']
   \<and> triggers wide_chunker [] (page_texts three_sections [])
     = [''c'', ''dddddddddddddddddddddddd'']
   \<and> int (length (split ''aaaaaaaaaaaaaaaaaaaaaa b'')) \<le> overlap_tokens wide_chunker div 4
   \<and> get_overlap_text wide_chunker ''aaaaaaaaaaaaaaaaaaaaaa b'' = []
   \<and> map ck_content (fst (chunk_page wide_chunker no_anchors (mk_page ''P'' ''p.html'' [])
       three_sections []))
     = [''aaaaaaaaaaaaaaaaaaaaaa b'', ''dddddddddddddddddddddddd'']
   \<and> \<not> prefix ''c'' ''dddddddddddddddddddddddd''"
  by (simp add: wide_eval)

section \<open>The record that \<open>get_neighbors\<close> returns\<close>

lemmas heap_eval = built_heap_def heap_of_def alloc_entry_def empty_heap_def stored_def
  get_neighbors_def children_append_def see_also_clear_def parent_assign_def

lemma built_A: "graph_entry (build_graph posix_join_parent toc_nested pages_abc) ''A''
    = Some \<lparr>parent = None, children = [''C'', ''B''], see_also = [''B'', ''C'']\<rparr>"
  by (simp add: graph_eval pages_abc_def toc_nested_def)

lemma built_B: "graph_entry (build_graph posix_join_parent toc_nested pages_abc) ''B''
    = Some \<lparr>parent = Some ''A'', children = [], see_also = []\<rparr>"
  by (simp add: graph_eval pages_abc_def toc_nested_def)

lemma built_C: "graph_entry (build_graph posix_join_parent toc_nested pages_abc) ''C''
    = Some \<lparr>parent = Some ''A'', children = [], see_also = []\<rparr>"
  by (simp add: graph_eval pages_abc_def toc_nested_def)

text \<open>For a known page id the returned dictionary holds the stored entry's references.\<close>

lemma get_neighbors_alias:
  assumes "h_graph h page_id = Some d" and "h_dicts h d = Some obj"
  shows "h_dicts (snd (get_neighbors h page_id)) (fst (get_neighbors h page_id)) = Some obj"
  using assms by (simp add: get_neighbors_def Let_def)

text \<open>
  Claim C8 does not hold of the code. On the graph built from \<open>toc_nested\<close> and
  \<open>pages_abc\<close>, appending to the \<open>children\<close> list of the record returned for page A
  changes the stored entry of A, and clearing its \<open>see_also\<close> list empties the
  stored one: \<open>dict.copy()\<close> copies the dictionary and shares the lists. Only an
  assignment to a key of the returned record leaves the stored entry as it was.
\<close>

theorem get_neighbors_shares_lists:
  "stored built_heap ''A''
     = Some \<lparr>parent = None, children = [''C'', ''B''], see_also = [''B'', ''C'']\<rparr>
   \<and> stored (children_append (get_neighbors built_heap ''A'') ''X'') ''A''
     = Some \<lparr>parent = None, children = [''C'', ''B'', ''X''], see_also = [''B'', ''C'']\<rparr>
   \<and> stored (see_also_clear (get_neighbors built_heap ''A'')) ''A''
     = Some \<lparr>parent = None, children = [''C'', ''B''], see_also = []\<rparr>
   \<and> stored (parent_assign (get_neighbors built_heap ''A'') (Some ''Z'')) ''A''
     = Some \<lparr>parent = None, children = [''C'', ''B''], see_also = [''B'', ''C'']\<rparr>"
  by (simp add: heap_eval built_A built_B built_C Let_def)

section \<open>Saving and loading the index\<close>

lemma source_round_trip [simp]: "source_of_value (source_value s) = Some s"
  by (cases s) (simp_all add: source_of_value_def)

lemma chunk_of_fields_model_dump:
  "model_dump c = JObj kv \<Longrightarrow> chunk_of_fields kv = Some c"
  by (cases "ck_anchor c")
     (auto simp: model_dump_def chunk_of_fields_def str_field_def int_field_def
        json_str_def json_int_def)

lemma update_fresh:
  "k \<notin> fst ` set al \<Longrightarrow> AList.update k v al = al @ [(k, v)]"
  by (induction al) auto

lemma load_metadata_saved:
  "distinct (map fst (acc @ meta)) \<Longrightarrow>
   metadata_dict meta = JObj items \<Longrightarrow> load_metadata items acc = Inr (acc @ meta)"
proof (induction meta arbitrary: acc items)
  case Nil
  then show ?case by (simp add: metadata_dict_def)
next
  case (Cons e meta)
  obtain chunk_id chunk i where e: "e = (chunk_id, chunk, i)" by (cases e)
  obtain kv where kv: "model_dump chunk = JObj kv" by (simp add: model_dump_def)
  obtain rest where rest: "metadata_dict meta = JObj rest" by (simp add: metadata_dict_def)
  have items: "items = (chunk_id, JObj [(''chunk'', JObj kv), (''index'', JInt i)]) # rest"
    using Cons.prems(2) e kv rest by (simp add: metadata_dict_def)
  have fresh: "chunk_id \<notin> fst ` set acc"
    using Cons.prems(1) e by auto
  have d: "distinct (map fst ((acc @ [(chunk_id, chunk, i)]) @ meta))"
    using Cons.prems(1) e by simp
  show ?case
    using Cons.IH[OF d rest] chunk_of_fields_model_dump[OF kv]
    by (simp add: items e update_fresh[OF fresh])
qed

lemma store_metadata_fold_distinct:
  "distinct (map fst acc) \<Longrightarrow>
   distinct (map fst (fold (\<lambda>(i, chunk) meta. AList.update (ck_id chunk) (chunk, int i) meta) xs acc))"
  by (induction xs arbitrary: acc) (auto simp: distinct_update)

lemma store_metadata_distinct: "distinct (map fst (store_metadata chunk_list))"
  unfolding store_metadata_def by (rule store_metadata_fold_distinct) simp

lemma search_cong:
  assumes "embedding_model_name ix' = embedding_model_name ix"
    and "faiss_index ix' = faiss_index ix" and "bm25_index ix' = bm25_index ix"
    and "chunk_metadata ix' = chunk_metadata ix"
  shows "search ev ix' query k = search ev ix query k"
proof -
  have f: "faiss_search ev ix' = faiss_search ev ix"
    unfolding faiss_search_def assms ..
  have b: "bm25_search ev ix' = bm25_search ev ix"
    unfolding bm25_search_def assms ..
  show ?thesis
    unfolding search_def f b assms ..
qed

lemma load_after_build:
  assumes rt: "\<And>f. read_index cd (write_index cd f) = f"
    "\<And>b. pickle_load cd (pickle_dump cd b) = b"
    and b: "build_index ev cd ix0 chunk_list am = Inr (ix, d)"
  shows "\<exists>ix'. load_indices cd d ix1 = Inr ix'
     \<and> embedding_model_name ix' = embedding_model_name ix1
     \<and> embedding_model_name ix = embedding_model_name ix0
     \<and> faiss_index ix' = faiss_index ix \<and> bm25_index ix' = bm25_index ix
     \<and> chunk_metadata ix' = chunk_metadata ix \<and> anchor_map ix' = anchor_map ix"
proof -
  from b have ne: "chunk_list \<noteq> []" by (auto simp: build_index_def split: if_splits)
  obtain items where items: "metadata_dict (store_metadata chunk_list) = JObj items"
    by (simp add: metadata_dict_def)
  have lm: "load_metadata items [] = Inr (store_metadata chunk_list)"
    using load_metadata_saved[of "[]" "store_metadata chunk_list" items]
      store_metadata_distinct items by simp
  from b ne have ix: "embedding_model_name ix = embedding_model_name ix0"
    "faiss_index ix
       = Some (faiss_build ev (encode ev (embedding_model_name ix0) (map ck_content chunk_list)))"
    "bm25_index ix
       = Some (bm25_build ev (map (\<lambda>text. split (lower text)) (map ck_content chunk_list)))"
    "chunk_metadata ix = store_metadata chunk_list"
    and d: "faiss_file d = Some (write_index cd
              (faiss_build ev (encode ev (embedding_model_name ix0) (map ck_content chunk_list))))"
    "bm25_file d = Some (pickle_dump cd (bm25_index ix))"
    "metadata_file d = Some (JObj items)"
    "anchor_map_file d = Some (JObj (anchor_map ix))"
    by (auto simp: build_index_def save_indices_def Let_def items split: option.splits if_splits)
  show ?thesis
    by (simp add: load_indices_def d lm rt ix Let_def)
qed

text \<open>
  Claim C2, as amended. Let \<open>build_index\<close> succeed on a list of chunks, leaving the
  indexer \<open>ix\<close> and the directory \<open>d\<close>; let reading return what \<open>faiss.write_index\<close>
  and \<open>pickle.dump\<close> wrote; and let \<open>ix1\<close> be an instance with the embedding model of
  the instance that built. Then \<open>load_indices\<close> succeeds from \<open>d\<close> on \<open>ix1\<close>, and
  for every query and every \<open>k\<close> the loaded instance answers \<open>search\<close> exactly as
  \<open>ix\<close> does (the same results in the same order with the same scores) when both
  searches run in one environment \<open>ev\<close>: the same libraries and the same iteration
  order of sets.
\<close>

theorem search_after_save_load:
  assumes "\<And>f. read_index cd (write_index cd f) = f"
    and "\<And>b. pickle_load cd (pickle_dump cd b) = b"
    and "build_index ev cd ix0 chunk_list am = Inr (ix, d)"
    and "embedding_model_name ix1 = embedding_model_name ix0"
  shows "\<exists>ix'. load_indices cd d ix1 = Inr ix'
     \<and> search ev ix' query k = search ev ix query k"
proof -
  from load_after_build[OF assms(1,2,3), of ix1]
  obtain ix' where l: "load_indices cd d ix1 = Inr ix'"
    and e: "embedding_model_name ix' = embedding_model_name ix1"
      "embedding_model_name ix = embedding_model_name ix0"
    and r: "faiss_index ix' = faiss_index ix" "bm25_index ix' = bm25_index ix"
      "chunk_metadata ix' = chunk_metadata ix"
    by blast
  have "embedding_model_name ix' = embedding_model_name ix"
    using e assms(4) by simp
  from search_cong[OF this r] l show ?thesis by blast
qed

text \<open>The definitions that a run of the indexer on a concrete input unfolds.\<close>

lemmas index_eval = build_index_def save_indices_def load_indices_def store_metadata_def
  metadata_dict_def model_dump_def chunk_of_fields_def str_field_def int_field_def
  json_str_def json_int_def source_of_value_def faiss_hit_def two_chunks_def mk_chunk_def
  id_codec_def demo_env_def demo_env_rev_def new_indexer_def str_int_def split_def
  is_space_def search_def faiss_search_def bm25_search_def chunk_id_at_def
  reciprocal_rank_fusion_def ranks_def get_default_def rrf_score_def slice_to_def
  slice_bound_def create_snippet_def result_ids_def result_scores_def absdiff_def Let_def

lemma lower_examples:
  "lower ''alpha arc'' = ''alpha arc''" "lower ''beta circle'' = ''beta circle''"
  "lower ''beta'' = ''beta''"
  by code_simp+

lemma model_lengths: "length default_model = 16" "length other_model = 59"
  by (simp_all add: default_model_def other_model_def)

lemma codec_round_trip:
  "read_index id_codec (write_index id_codec f) = f"
  "pickle_load id_codec (pickle_dump id_codec b) = b"
  by (simp_all add: id_codec_def)

lemma demo_build:
  "build_index demo_env id_codec (new_indexer default_model) two_chunks None = Inr demo_built"
  by (simp add: demo_built_def index_eval)

lemma demo_built_eq: "demo_built =
  (\<lparr>embedding_model_name = default_model,
     faiss_index = Some [144, 176],
     bm25_index = Some [[''alpha'', ''arc''], [''beta'', ''circle'']],
     chunk_metadata = [(''P_chunk_0'', mk_chunk ''P'' 0 ''alpha arc'', 0),
                       (''P_chunk_1'', mk_chunk ''P'' 1 ''beta circle'', 1)],
     anchor_map = []\<rparr>,
   \<lparr>faiss_file = Some [144, 176],
     bm25_file = Some (Some [[''alpha'', ''arc''], [''beta'', ''circle'']]),
     metadata_file = Some (metadata_dict [(''P_chunk_0'', mk_chunk ''P'' 0 ''alpha arc'', 0),
                       (''P_chunk_1'', mk_chunk ''P'' 1 ''beta circle'', 1)]),
     anchor_map_file = Some (JObj [])\<rparr>)"
  by (simp add: demo_built_def build_index_def save_indices_def store_metadata_def
       two_chunks_def mk_chunk_def id_codec_def demo_env_def new_indexer_def str_int_def
       split_def is_space_def lower_examples model_lengths Let_def)

lemma demo_load_any:
  "\<exists>ix'. load_indices id_codec (snd demo_built) (new_indexer name) = Inr ix'
     \<and> ix' = (fst demo_built)\<lparr>embedding_model_name := name\<rparr>"
proof -
  have b: "build_index demo_env id_codec (new_indexer default_model) two_chunks None
             = Inr (fst demo_built, snd demo_built)"
    by (simp add: demo_build)
  from load_after_build[OF codec_round_trip b, of "new_indexer name"]
  show ?thesis by (auto simp: demo_built_eq new_indexer_def)
qed

lemma demo_load:
  "load_indices id_codec (snd demo_built) (new_indexer default_model) = Inr demo_loaded"
  "demo_loaded = fst demo_built"
  using demo_load_any[of default_model]
  by (auto simp: demo_loaded_def demo_built_eq)

lemma demo_load_other:
  "load_indices id_codec (snd demo_built) (new_indexer other_model) = Inr demo_loaded_other"
  "demo_loaded_other = (fst demo_built)\<lparr>embedding_model_name := other_model\<rparr>"
  using demo_load_any[of other_model]
  by (auto simp: demo_loaded_other_def)

lemma demo_search:
  "result_ids (search demo_env (fst demo_built) ''beta'' 1) = Some [''P_chunk_1'']"
  "result_scores (search demo_env (fst demo_built) ''beta'' 1) = Some [123 / 3782]"
  by (simp_all add: demo_built_eq index_eval lower_examples model_lengths)

lemma demo_search_rev:
  "result_ids (search demo_env_rev (fst demo_built) ''beta'' 1) = Some [''P_chunk_0'']"
  by (simp add: demo_built_eq index_eval lower_examples model_lengths)

lemma demo_search_other:
  "result_scores (search demo_env ((fst demo_built)\<lparr>embedding_model_name := other_model\<rparr>)
      ''beta'' 1) = Some [2 / 61]"
  by (simp add: demo_built_eq index_eval lower_examples model_lengths)

theorem search_after_save_load_witness:
  "(\<forall>f. read_index id_codec (write_index id_codec f) = f)
   \<and> (\<forall>b. pickle_load id_codec (pickle_dump id_codec b) = b)
   \<and> build_index demo_env id_codec (new_indexer default_model) two_chunks None
       = Inr (fst demo_built, snd demo_built)
   \<and> embedding_model_name (new_indexer default_model :: (nat list, string list list) HybridIndexer)
       = embedding_model_name (new_indexer default_model :: (nat list, string list list) HybridIndexer)
   \<and> load_indices id_codec (snd demo_built) (new_indexer default_model) = Inr demo_loaded
   \<and> search demo_env demo_loaded ''beta'' 1 = search demo_env (fst demo_built) ''beta'' 1
   \<and> result_ids (search demo_env demo_loaded ''beta'' 1) = Some [''P_chunk_1'']"
proof -
  have b: "build_index demo_env id_codec (new_indexer default_model) two_chunks None
             = Inr (fst demo_built, snd demo_built)"
    by (simp add: demo_build)
  from search_after_save_load[OF codec_round_trip b refl, of "''beta''" 1] demo_load(1)
  have "search demo_env demo_loaded ''beta'' 1 = search demo_env (fst demo_built) ''beta'' 1"
    by auto
  then show ?thesis
    using codec_round_trip b demo_load(1) demo_search(1) by simp
qed

text \<open>
  The claim as stated fails in two ways. An index is built from the two chunks and
  its files are loaded into new instances. Searched in a process that iterates over
  the set of candidate ids in another order, the loaded instance returns chunk 0 where
  the built one returns chunk 1: the two chunks tie (each is first for one ranker and
  second for the other) and the order of a tie follows the iteration order. Loaded
  into an instance with another embedding model, the chunk comes back with the score
  2/61 where the built instance gives 123/3782: the files do not hold the model of the
  instance that built them.
\<close>

theorem search_after_save_load_counterexample:
  "build_index demo_env id_codec (new_indexer default_model) two_chunks None = Inr demo_built
   \<and> load_indices id_codec (snd demo_built) (new_indexer default_model) = Inr demo_loaded
   \<and> result_ids (search demo_env (fst demo_built) ''beta'' 1) = Some [''P_chunk_1'']
   \<and> result_ids (search demo_env_rev demo_loaded ''beta'' 1) = Some [''P_chunk_0'']
   \<and> load_indices id_codec (snd demo_built) (new_indexer other_model) = Inr demo_loaded_other
   \<and> result_scores (search demo_env (fst demo_built) ''beta'' 1) = Some [123 / 3782]
   \<and> result_scores (search demo_env demo_loaded_other ''beta'' 1) = Some [2 / 61]"
proof -
  have "result_ids (search demo_env_rev demo_loaded ''beta'' 1) = Some [''P_chunk_0'']"
    unfolding demo_load(2) by (rule demo_search_rev)
  moreover have "result_scores (search demo_env demo_loaded_other ''beta'' 1) = Some [2 / 61]"
    unfolding demo_load_other(2) by (rule demo_search_other)
  ultimately show ?thesis
    using demo_build demo_load(1) demo_load_other(1) demo_search by simp
qed

end
